theory Spec2Isabelle
  imports Main "HOL-Library.Word" "HOL-Library.Monad_Syntax"
begin

section \<open>Data model\<close>

text \<open>
  The CUDA vector types \<^verbatim>\<open>int2\<close> and \<^verbatim>\<open>int3\<close> are structs of two and three
  \<^verbatim>\<open>int\<close> fields. Mesh indices are only compared and used as subscripts by the edge
  repair code, never computed with, so they are mathematical integers here; the sentinel
  for a missing triangle is \<open>-1\<close>.
\<close>

record int2 =
  i2x :: int
  i2y :: int

record int3 =
  i3x :: int
  i3y :: int
  i3z :: int

text \<open>
  A C array is a list. A subscript outside the allocation is undefined behaviour in the
  source; the model makes it the value \<open>None\<close>.
\<close>

definition rd :: "'a list \<Rightarrow> int \<Rightarrow> 'a option" where
  "rd xs i = (if 0 \<le> i \<and> i < int (length xs) then Some (xs ! nat i) else None)"

definition wr :: "'a list \<Rightarrow> int \<Rightarrow> 'a \<Rightarrow> 'a list option" where
  "wr xs i v = (if 0 \<le> i \<and> i < int (length xs) then Some (xs[nat i := v]) else None)"

text \<open>
  The outcome of a call: it returns, it runs into an access outside an allocation, or
  (for a kernel launch only) the threads were not all run to their end.
\<close>

datatype 'a outcome = Final 'a | Fault | Unfinished

definition of_option :: "'a option \<Rightarrow> 'a outcome" where
  "of_option r = (case r of None \<Rightarrow> Fault | Some v \<Rightarrow> Final v)"

text \<open>The loop \<^verbatim>\<open>for (int i = lo; i < hi; i++) body(i)\<close> over a memory \<open>m\<close>.\<close>

function for_loop :: "(int \<Rightarrow> 'm \<Rightarrow> 'm option) \<Rightarrow> int \<Rightarrow> int \<Rightarrow> 'm \<Rightarrow> 'm option" where
  "for_loop body i n m =
     (if i < n then (case body i m of None \<Rightarrow> None | Some m' \<Rightarrow> for_loop body (i + 1) n m')
      else Some m)"
  by pat_completeness auto
termination
  by (relation "measure (\<lambda>(body, i, n, m). nat (n - i))") auto

declare for_loop.simps [simp del]

section \<open>Kernel launches\<close>

text \<open>
  A kernel launch \<^verbatim>\<open>kernel<<<nBlocks, nThreads>>>(...)\<close> runs the kernel function once in
  each of \<open>G = gridDim.x * blockDim.x\<close> threads, concurrently, on arrays that the threads
  share. A thread is a sequential program over its own local variables \<open>'l\<close>; between two
  accesses of a shared array element any other thread may run. So a thread is given by
  the action it takes next in a local state: it has returned, it faults (an access
  outside an allocation), it changes local variables only, or it reads and writes one
  element (cell) of the array that the kernel writes, at a subscript.
\<close>

datatype ('l, 'c) action =
  Halt
| Crash
| Tau 'l
| Access nat "'c \<Rightarrow> 'l \<times> 'c"

type_synonym ('l, 'c) thread = "'l \<Rightarrow> ('l, 'c) action"

text \<open>One step of one thread on the shared array; a thread that has returned stays put.\<close>

definition thread_step :: "('l, 'c) thread \<Rightarrow> 'l \<times> 'c list \<Rightarrow> ('l \<times> 'c list) option" where
  "thread_step p lm =
     (case lm of (l, m) \<Rightarrow>
        (case p l of
           Halt \<Rightarrow> Some (l, m)
         | Crash \<Rightarrow> None
         | Tau l' \<Rightarrow> Some (l', m)
         | Access a f \<Rightarrow>
             if a < length m then (case f (m ! a) of (l', c) \<Rightarrow> Some (l', m[a := c]))
             else None))"

text \<open>
  The state of a launch is the local state of every thread and the shared array. A
  schedule is the order in which the threads take their steps: its \<open>k\<close>-th entry names the
  thread that takes the \<open>k\<close>-th step.
\<close>

definition grid_step ::
  "(nat \<Rightarrow> ('l, 'c) thread) \<Rightarrow> nat \<Rightarrow> 'l list \<times> 'c list \<Rightarrow> ('l list \<times> 'c list) option" where
  "grid_step kern k cfg =
     (case cfg of (ls, m) \<Rightarrow>
        if k < length ls then
          (case thread_step (kern k) (ls ! k, m) of
             None \<Rightarrow> None
           | Some (l', m') \<Rightarrow> Some (ls[k := l'], m'))
        else Some (ls, m))"

fun run :: "(nat \<Rightarrow> ('l, 'c) thread) \<Rightarrow> nat list \<Rightarrow> 'l list \<times> 'c list \<Rightarrow>
    ('l list \<times> 'c list) option" where
  "run kern [] cfg = Some cfg"
| "run kern (k # ks) cfg =
     (case grid_step kern k cfg of None \<Rightarrow> None | Some cfg' \<Rightarrow> run kern ks cfg')"

text \<open>
  The launch followed by \<^verbatim>\<open>cudaDeviceSynchronize()\<close>: thread \<open>k\<close> starts in \<open>init k\<close>, the
  threads run as the schedule says, and the launch is over when every thread has returned.
\<close>

definition launch ::
  "(nat \<Rightarrow> ('l, 'c) thread) \<Rightarrow> (nat \<Rightarrow> 'l) \<Rightarrow> nat \<Rightarrow> nat list \<Rightarrow> 'c list \<Rightarrow> 'c list outcome" where
  "launch kern init G sched m =
     (case run kern sched (map init [0..<G], m) of
        None \<Rightarrow> Fault
      | Some (ls, m') \<Rightarrow>
          if (\<forall>k < G. kern k (ls ! k) = Halt) then Final m' else Unfinished)"

section \<open>Edge repair (edgerepair.cu)\<close>

text \<open>
  \<^verbatim>\<open>SingleEdgeRepair(i, pTsub, pTe, pEt)\<close>. The two triangle slots of entry \<open>i\<close> are read;
  for a slot \<^verbatim>\<open>t != -1\<close> the substitute \<^verbatim>\<open>pTsub[t]\<close> and the three edges \<^verbatim>\<open>pTe[t]\<close>
  are read, and the slot becomes the substitute when \<open>i\<close> is none of the three edges;
  then both slots are written back. Only \<^verbatim>\<open>pEt\<close> is written.
\<close>

definition SingleEdgeRepair ::
  "int \<Rightarrow> int list \<Rightarrow> int3 list \<Rightarrow> int2 list \<Rightarrow> int2 list option" where
  "SingleEdgeRepair i pTsub pTe pEt =
     do {
       t1 \<leftarrow> map_option i2x (rd pEt i);
       t2 \<leftarrow> map_option i2y (rd pEt i);
       t1 \<leftarrow> (if t1 \<noteq> - 1 then
               do {
                 tS1 \<leftarrow> rd pTsub t1;
                 te \<leftarrow> rd pTe t1;
                 let e1 = i3x te; e2 = i3y te; e3 = i3z te
                 in Some (if i \<noteq> e1 \<and> i \<noteq> e2 \<and> i \<noteq> e3 then tS1 else t1)
               }
             else Some t1);
       t2 \<leftarrow> (if t2 \<noteq> - 1 then
               do {
                 tS2 \<leftarrow> rd pTsub t2;
                 te \<leftarrow> rd pTe t2;
                 let e1 = i3x te; e2 = i3y te; e3 = i3z te
                 in Some (if i \<noteq> e1 \<and> i \<noteq> e2 \<and> i \<noteq> e3 then tS2 else t2)
               }
             else Some t2);
       et \<leftarrow> rd pEt i;
       pEt \<leftarrow> wr pEt i (et\<lparr>i2x := t1\<rparr>);
       et \<leftarrow> rd pEt i;
       wr pEt i (et\<lparr>i2y := t2\<rparr>)
     }"

subsection \<open>The two kernels\<close>

text \<open>
  On the device \<^verbatim>\<open>SingleEdgeRepair\<close> runs inside a thread, statement by statement. The
  local variables of a thread of \<^verbatim>\<open>devEdgeRepair\<close> or \<^verbatim>\<open>devEdgeRepairLimit\<close> are the loop
  variable \<open>i\<close> of the kernel, the edge \<open>e\<close> handed to \<^verbatim>\<open>SingleEdgeRepair\<close>, its \<open>t1\<close> and
  \<open>t2\<close>, and the statement to execute next. The shared array is \<^verbatim>\<open>pEt\<close>; \<^verbatim>\<open>pTsub\<close>, \<^verbatim>\<open>pTe\<close>
  and \<^verbatim>\<open>pEnC\<close> are \<^verbatim>\<open>const\<close> and not written during the launch.
\<close>

datatype er_pc =
  ER_while | ER_load_x | ER_load_y | ER_if1 | ER_if2 | ER_store_x | ER_store_y | ER_incr

record er_local =
  er_pc :: er_pc
  er_i :: int
  er_e :: int
  er_t1 :: int
  er_t2 :: int

text \<open>The statements of \<^verbatim>\<open>SingleEdgeRepair(e, pTsub, pTe, pEt)\<close>, in their order.\<close>

definition SingleEdgeRepair_thread ::
  "int list \<Rightarrow> int3 list \<Rightarrow> er_local \<Rightarrow> (er_local, int2) action" where
  "SingleEdgeRepair_thread pTsub pTe l =
     (case er_pc l of
        ER_load_x \<Rightarrow>
          if 0 \<le> er_e l
          then Access (nat (er_e l)) (\<lambda>c. (l\<lparr>er_t1 := i2x c, er_pc := ER_load_y\<rparr>, c))
          else Crash
      | ER_load_y \<Rightarrow>
          if 0 \<le> er_e l
          then Access (nat (er_e l)) (\<lambda>c. (l\<lparr>er_t2 := i2y c, er_pc := ER_if1\<rparr>, c))
          else Crash
      | ER_if1 \<Rightarrow>
          if er_t1 l \<noteq> - 1 then
            (case rd pTsub (er_t1 l) of
               None \<Rightarrow> Crash
             | Some tS1 \<Rightarrow>
                 (case rd pTe (er_t1 l) of
                    None \<Rightarrow> Crash
                  | Some te \<Rightarrow>
                      Tau (l\<lparr>er_t1 :=
                               (if er_e l \<noteq> i3x te \<and> er_e l \<noteq> i3y te \<and> er_e l \<noteq> i3z te
                                then tS1 else er_t1 l),
                             er_pc := ER_if2\<rparr>)))
          else Tau (l\<lparr>er_pc := ER_if2\<rparr>)
      | ER_if2 \<Rightarrow>
          if er_t2 l \<noteq> - 1 then
            (case rd pTsub (er_t2 l) of
               None \<Rightarrow> Crash
             | Some tS2 \<Rightarrow>
                 (case rd pTe (er_t2 l) of
                    None \<Rightarrow> Crash
                  | Some te \<Rightarrow>
                      Tau (l\<lparr>er_t2 :=
                               (if er_e l \<noteq> i3x te \<and> er_e l \<noteq> i3y te \<and> er_e l \<noteq> i3z te
                                then tS2 else er_t2 l),
                             er_pc := ER_store_x\<rparr>)))
          else Tau (l\<lparr>er_pc := ER_store_x\<rparr>)
      | ER_store_x \<Rightarrow>
          if 0 \<le> er_e l
          then Access (nat (er_e l)) (\<lambda>c. (l\<lparr>er_pc := ER_store_y\<rparr>, c\<lparr>i2x := er_t1 l\<rparr>))
          else Crash
      | ER_store_y \<Rightarrow>
          if 0 \<le> er_e l
          then Access (nat (er_e l)) (\<lambda>c. (l\<lparr>er_pc := ER_incr\<rparr>, c\<lparr>i2y := er_t2 l\<rparr>))
          else Crash
      | _ \<Rightarrow> Crash)"

text \<open>
  \<^verbatim>\<open>i += gridDim.x*blockDim.x\<close> adds an \<^verbatim>\<open>unsigned int\<close> to the \<^verbatim>\<open>int\<close> \<open>i\<close>: the sum is
  taken modulo \<open>2^32\<close> and read as a signed 32-bit number.
\<close>

definition to_int32 :: "int \<Rightarrow> int" where
  "to_int32 k = (let u = k mod 2 ^ 32 in if u < 2 ^ 31 then u else u - 2 ^ 32)"

text \<open>
  \<^verbatim>\<open>devEdgeRepair(nEdge, pTsub, pTe, pEt)\<close> in a grid of \<open>G\<close> threads:
  \<^verbatim>\<open>while (i < nEdge) { SingleEdgeRepair(i, ...); i += gridDim.x*blockDim.x; }\<close>
\<close>

definition devEdgeRepair ::
  "nat \<Rightarrow> int \<Rightarrow> int list \<Rightarrow> int3 list \<Rightarrow> er_local \<Rightarrow> (er_local, int2) action" where
  "devEdgeRepair G nEdge pTsub pTe l =
     (case er_pc l of
        ER_while \<Rightarrow>
          if er_i l < nEdge then Tau (l\<lparr>er_e := er_i l, er_pc := ER_load_x\<rparr>) else Halt
      | ER_incr \<Rightarrow> Tau (l\<lparr>er_i := to_int32 (er_i l + int G), er_pc := ER_while\<rparr>)
      | _ \<Rightarrow> SingleEdgeRepair_thread pTsub pTe l)"

text \<open>
  \<^verbatim>\<open>devEdgeRepairLimit(nEdgeCheck, pEnC, pTsub, pTe, pEt)\<close>:
  \<^verbatim>\<open>while (i < nEdgeCheck) { int e = pEnC[i]; SingleEdgeRepair(e, ...); i += ...; }\<close>
\<close>

definition devEdgeRepairLimit ::
  "nat \<Rightarrow> int \<Rightarrow> int list \<Rightarrow> int list \<Rightarrow> int3 list \<Rightarrow> er_local \<Rightarrow>
     (er_local, int2) action" where
  "devEdgeRepairLimit G nEdgeCheck pEnC pTsub pTe l =
     (case er_pc l of
        ER_while \<Rightarrow>
          if er_i l < nEdgeCheck then
            (case rd pEnC (er_i l) of
               None \<Rightarrow> Crash
             | Some e \<Rightarrow> Tau (l\<lparr>er_e := e, er_pc := ER_load_x\<rparr>))
          else Halt
      | ER_incr \<Rightarrow> Tau (l\<lparr>er_i := to_int32 (er_i l + int G), er_pc := ER_while\<rparr>)
      | _ \<Rightarrow> SingleEdgeRepair_thread pTsub pTe l)"

text \<open>
  A thread starts with \<^verbatim>\<open>int i = blockIdx.x*blockDim.x + threadIdx.x\<close>, its number in the
  grid; the other local variables are not initialised (they are written before they are
  read).
\<close>

definition er_init :: "nat \<Rightarrow> er_local" where
  "er_init tid = \<lparr>er_pc = ER_while, er_i = to_int32 (int tid), er_e = 0, er_t1 = 0, er_t2 = 0\<rparr>"

subsection \<open>The pass\<close>

text \<open>
  What \<^verbatim>\<open>Delaunay::EdgeRepair\<close> reads and writes: the buffers of
  \<^verbatim>\<open>connectivity->triangleEdges\<close> and \<^verbatim>\<open>connectivity->edgeTriangles\<close>, the size of the
  latter (\<^verbatim>\<open>GetSize()\<close>), the buffer of \<^verbatim>\<open>triangleSubstitute\<close> and the \<^verbatim>\<open>cudaFlag\<close> of the
  \<^verbatim>\<open>Delaunay\<close> object.
\<close>

record mesh =
  triangleEdges :: "int3 list"
  edgeTriangles :: "int2 list"
  edgeTriangles_size :: int
  triangleSubstitute :: "int list"
  cudaFlag :: int

text \<open>
  What a launch adds to the arguments of a kernel: the number of threads
  \<open>gridDim.x * blockDim.x\<close> (chosen by \<^verbatim>\<open>cudaOccupancyMaxPotentialBlockSize\<close>) and the order in
  which the device lets the threads take their steps.
\<close>

record grid =
  nThreadsTotal :: nat
  schedule :: "nat list"

text \<open>
  \<^verbatim>\<open>Delaunay::EdgeRepair(connectivity, edgeNeedsChecking, nEdgeCheck)\<close>. The candidate list
  is \<open>None\<close> for the null pointer and the buffer of the array otherwise.
\<close>

definition EdgeRepair :: "grid \<Rightarrow> mesh \<Rightarrow> int list option \<Rightarrow> int \<Rightarrow> mesh outcome" where
  "EdgeRepair g s edgeNeedsChecking nEdgeCheck =
     (let nEdge = edgeTriangles_size s;
          pTe = triangleEdges s;
          pEt = edgeTriangles s;
          pTsub = triangleSubstitute s
      in map_outcome (\<lambda>pEt'. s\<lparr>edgeTriangles := pEt'\<rparr>)
           (case edgeNeedsChecking of
              None \<Rightarrow>
                if cudaFlag s = 1 then
                  launch (\<lambda>tid. devEdgeRepair (nThreadsTotal g) nEdge pTsub pTe) er_init
                    (nThreadsTotal g) (schedule g) pEt
                else
                  of_option (for_loop (\<lambda>i. SingleEdgeRepair i pTsub pTe) 0 nEdge pEt)
            | Some pEnC \<Rightarrow>
                if cudaFlag s = 1 then
                  launch (\<lambda>tid. devEdgeRepairLimit (nThreadsTotal g) nEdgeCheck pEnC pTsub pTe)
                    er_init (nThreadsTotal g) (schedule g) pEt
                else
                  of_option
                    (for_loop
                       (\<lambda>i pEt. case rd pEnC i of
                                  None \<Rightarrow> None
                                | Some e \<Rightarrow> SingleEdgeRepair e pTsub pTe pEt)
                       0 nEdgeCheck pEt)))"

section \<open>The array class (value.cu, select.cu)\<close>

text \<open>
  The fields of \<^verbatim>\<open>Array<T>\<close> that the two files use (the class itself is declared in
  \<^verbatim>\<open>array.h\<close>, which is not among the sources). A buffer holds \<open>nDims\<close> blocks of \<open>realSize\<close>
  elements, of which the first \<open>size\<close> are in use: element \<open>i\<close> of dimension \<open>n\<close> is at
  subscript \<open>i + n * realSize\<close>. The data are in \<^verbatim>\<open>deviceVec\<close> when \<^verbatim>\<open>cudaFlag\<close> is 1 and in
  \<^verbatim>\<open>hostVec\<close> otherwise. The \<^verbatim>\<open>unsigned int\<close> fields are natural numbers; sums of
  \<^verbatim>\<open>unsigned int\<close> are taken modulo \<open>2^32\<close>.
\<close>

record 'a Array =
  nDims :: nat
  size_A :: nat
  realSize :: nat
  cudaFlag_A :: int
  hostVec :: "'a list"
  deviceVec :: "'a list"

subsection \<open>Array::SetToValue(value, startIndex, endIndex)\<close>

text \<open>
  The kernel \<^verbatim>\<open>devSetToValue(N, array, value, startIndex, endIndex, realSize, nDims)\<close> in
  thread \<open>tid\<close> of \<open>G\<close> (\<open>realSz\<close> and \<open>nDim\<close> are its parameters \<^verbatim>\<open>realSize\<close> and \<^verbatim>\<open>nDims\<close>):
  \<^verbatim>\<open>for (int n = 0; n < nDims; n++) {
    unsigned int i = blockIdx.x*blockDim.x + threadIdx.x + startIndex;
    while (i < endIndex) { array[i + n*realSize] = value; i += gridDim.x*blockDim.x; } }\<close>
\<close>

datatype sv_pc = SV_for | SV_while | SV_store | SV_incr

record sv_local =
  sv_pc :: sv_pc
  sv_n :: int
  sv_i :: int

definition devSetToValue ::
  "nat \<Rightarrow> 'a \<Rightarrow> int \<Rightarrow> int \<Rightarrow> int \<Rightarrow> int \<Rightarrow> nat \<Rightarrow> sv_local \<Rightarrow> (sv_local, 'a) action" where
  "devSetToValue G val startIndex endIndex realSz nDim tid l =
     (case sv_pc l of
        SV_for \<Rightarrow>
          if sv_n l < nDim
          then Tau (l\<lparr>sv_i := (int tid + startIndex) mod 2 ^ 32, sv_pc := SV_while\<rparr>)
          else Halt
      | SV_while \<Rightarrow>
          if sv_i l < endIndex then Tau (l\<lparr>sv_pc := SV_store\<rparr>)
          else Tau (l\<lparr>sv_n := sv_n l + 1, sv_pc := SV_for\<rparr>)
      | SV_store \<Rightarrow>
          Access (nat ((sv_i l + sv_n l * realSz) mod 2 ^ 32))
            (\<lambda>c. (l\<lparr>sv_pc := SV_incr\<rparr>, val))
      | SV_incr \<Rightarrow> Tau (l\<lparr>sv_i := (sv_i l + int G) mod 2 ^ 32, sv_pc := SV_while\<rparr>))"

definition sv_init :: "nat \<Rightarrow> sv_local" where
  "sv_init tid = \<lparr>sv_pc = SV_for, sv_n = 0, sv_i = 0\<rparr>"

text \<open>
  \<^verbatim>\<open>Array<T>::SetToValue(T value, unsigned int startIndex, unsigned int endIndex)\<close>. The
  function has one \<^verbatim>\<open>if (cudaFlag == 1)\<close> with the launch and one \<^verbatim>\<open>if (cudaFlag == 0)\<close> with
  \<^verbatim>\<open>for (n = 0; n < nDims; n++) for (i = startIndex; i < endIndex; i++)
    hostVec[i + n*realSize] = value;\<close>
\<close>

definition SetToValue :: "grid \<Rightarrow> 'a Array \<Rightarrow> 'a \<Rightarrow> nat \<Rightarrow> nat \<Rightarrow> 'a Array outcome" where
  "SetToValue g a val startIndex endIndex =
     (if cudaFlag_A a = 1 then
        map_outcome (\<lambda>d. a\<lparr>deviceVec := d\<rparr>)
          (launch (devSetToValue (nThreadsTotal g) val (int startIndex) (int endIndex)
                     (int (realSize a)) (int (nDims a)))
             sv_init (nThreadsTotal g) (schedule g) (deviceVec a))
      else if cudaFlag_A a = 0 then
        map_outcome (\<lambda>h. a\<lparr>hostVec := h\<rparr>)
          (of_option
             (for_loop
                (\<lambda>n. for_loop (\<lambda>i h. wr h ((i + n * int (realSize a)) mod 2 ^ 32) val)
                       (int startIndex) (int endIndex))
                0 (int (nDims a)) (hostVec a)))
      else Final a)"

subsection \<open>Array::SelectLargerThan(value, A)\<close>

text \<open>
  The kernel \<^verbatim>\<open>devSelectLargerThan(N, data, value, pSelectFlag)\<close>:
  \<^verbatim>\<open>while (i < N) { int ret = 0; if (data[i] > value) ret = 1; pSelectFlag[i] = ret;
    i += gridDim.x*blockDim.x; }\<close>
  The shared array that it writes is \<^verbatim>\<open>pSelectFlag\<close>; \<^verbatim>\<open>data\<close> is only read.
\<close>

datatype sl_pc = SL_while | SL_ret | SL_if | SL_store | SL_incr

record sl_local =
  sl_pc :: sl_pc
  sl_i :: int
  sl_ret :: int

definition devSelectLargerThan ::
  "nat \<Rightarrow> int \<Rightarrow> int list \<Rightarrow> int \<Rightarrow> sl_local \<Rightarrow> (sl_local, int) action" where
  "devSelectLargerThan G N data val l =
     (case sl_pc l of
        SL_while \<Rightarrow> if sl_i l < N then Tau (l\<lparr>sl_pc := SL_ret\<rparr>) else Halt
      | SL_ret \<Rightarrow> Tau (l\<lparr>sl_ret := 0, sl_pc := SL_if\<rparr>)
      | SL_if \<Rightarrow>
          (case rd data (sl_i l) of
             None \<Rightarrow> Crash
           | Some d \<Rightarrow> Tau (l\<lparr>sl_ret := (if d > val then 1 else sl_ret l), sl_pc := SL_store\<rparr>))
      | SL_store \<Rightarrow>
          if 0 \<le> sl_i l
          then Access (nat (sl_i l)) (\<lambda>c. (l\<lparr>sl_pc := SL_incr\<rparr>, sl_ret l))
          else Crash
      | SL_incr \<Rightarrow> Tau (l\<lparr>sl_i := to_int32 (sl_i l + int G), sl_pc := SL_while\<rparr>))"

definition sl_init :: "nat \<Rightarrow> sl_local" where
  "sl_init tid = \<lparr>sl_pc = SL_while, sl_i = to_int32 (int tid), sl_ret = 0\<rparr>"

text \<open>
  Modelled from the spec: \<^verbatim>\<open>Array::ExclusiveScan\<close> and \<^verbatim>\<open>Array::Compact\<close>, which
  \<^verbatim>\<open>SelectLargerThan\<close> calls and which are defined in files that are not among the sources.
  The specification describes the array abstraction as offering "boolean select/filter
  with compacted output and count, and exclusive-scan-based compaction given a
  keep-mask". The exclusive scan of the flags holds at \<open>i\<close> the sum of the flags before
  \<open>i\<close>, and the call returns the sum of all flags. The compaction moves, in every dimension,
  each element whose flag is 1 to the position that the scan gives it, and sets the size
  to the number of kept elements.
\<close>

fun exclusive_scan :: "int \<Rightarrow> int list \<Rightarrow> int list" where
  "exclusive_scan acc [] = []"
| "exclusive_scan acc (x # xs) = acc # exclusive_scan (acc + x) xs"

definition ExclusiveScan :: "int list \<Rightarrow> int \<times> int list" where
  "ExclusiveScan flags = (sum_list flags, exclusive_scan 0 flags)"

definition buffer :: "'a Array \<Rightarrow> 'a list" where
  "buffer a = (if cudaFlag_A a = 1 then deviceVec a else hostVec a)"

definition set_buffer :: "'a Array \<Rightarrow> 'a list \<Rightarrow> 'a Array" where
  "set_buffer a b = (if cudaFlag_A a = 1 then a\<lparr>deviceVec := b\<rparr> else a\<lparr>hostVec := b\<rparr>)"

definition scatter_dim :: "int list \<Rightarrow> int list \<Rightarrow> nat \<Rightarrow> nat \<Rightarrow> 'a list \<Rightarrow> 'a list \<Rightarrow> 'a list" where
  "scatter_dim keepFlag keepFlagScan N off old b =
     fold (\<lambda>i b. if keepFlag ! i = 1 then b[nat (keepFlagScan ! i) + off := old ! (i + off)] else b)
       [0..<N] b"

definition Compact :: "int \<Rightarrow> int list \<Rightarrow> int list \<Rightarrow> 'a Array \<Rightarrow> 'a Array" where
  "Compact nKeep keepFlag keepFlagScan a =
     (set_buffer a
        (fold (\<lambda>n b. scatter_dim keepFlag keepFlagScan (size_A a) (n * realSize a) (buffer a) b)
           [0..<nDims a] (buffer a)))
       \<lparr>size_A := nat nKeep\<rparr>"

text \<open>
  \<^verbatim>\<open>Array<T>::SelectLargerThan(T value, Array<S> *A)\<close>, for \<open>T = int\<close> as the file
  instantiates it. \<^verbatim>\<open>selectFlag\<close> is a new array of \<open>size\<close> elements; the flags are computed
  by the kernel or by the host loop
  \<^verbatim>\<open>for (i = 0; i < size; i++) { int ret = 0; if (hostVec[i] > value) ret = 1;
    pSelectFlag[i] = ret; }\<close>
  and then both arrays are compacted. The result is the return value and the two arrays.
\<close>

definition SelectLargerThan ::
  "grid \<Rightarrow> int Array \<Rightarrow> int \<Rightarrow> 'b Array \<Rightarrow> (int \<times> int Array \<times> 'b Array) outcome" where
  "SelectLargerThan g a val A =
     (let pSelectFlag = replicate (size_A a) 0
      in map_outcome
           (\<lambda>selectFlag.
              let (nSelect, selectFlagScan) = ExclusiveScan selectFlag
              in (nSelect, Compact nSelect selectFlag selectFlagScan a,
                  Compact nSelect selectFlag selectFlagScan A))
           (if cudaFlag_A a = 1 then
              launch (\<lambda>tid. devSelectLargerThan (nThreadsTotal g) (to_int32 (int (size_A a)))
                              (deviceVec a) val)
                sl_init (nThreadsTotal g) (schedule g) pSelectFlag
            else
              of_option
                (for_loop
                   (\<lambda>i flags.
                      case rd (hostVec a) i of
                        None \<Rightarrow> None
                      | Some d \<Rightarrow> wr flags i (if d > val then 1 else 0))
                   0 (int (size_A a)) pSelectFlag)))"

section \<open>Reducing a periodic vertex index (blendx.cu)\<close>

text \<open>
  \<^verbatim>\<open>while (a >= nVertex) a -= nVertex;\<close> and \<^verbatim>\<open>while (a < 0) a += nVertex;\<close> on 32-bit
  \<^verbatim>\<open>int\<close>. Either loop may run forever (for \<^verbatim>\<open>nVertex <= 0\<close>), so each is a partial
  function whose value \<open>None\<close> stands for not returning.
\<close>

partial_function (option) while_ge :: "32 word \<Rightarrow> 32 word \<Rightarrow> 32 word option" where
  "while_ge nVertex a =
     (if sint nVertex \<le> sint a then while_ge nVertex (a - nVertex) else Some a)"

partial_function (option) while_neg :: "32 word \<Rightarrow> 32 word \<Rightarrow> 32 word option" where
  "while_neg nVertex a =
     (if sint a < 0 then while_neg nVertex (a + nVertex) else Some a)"

definition reduce_index :: "32 word \<Rightarrow> 32 word \<Rightarrow> 32 word option" where
  "reduce_index nVertex a = while_ge nVertex a \<bind> while_neg nVertex"

section \<open>Reading the mesh parameters (readfromfile.cpp)\<close>

text \<open>
  The enumeration \<^verbatim>\<open>ProblemDefinition\<close> is declared in \<^verbatim>\<open>Common/definitions.h\<close>, which is
  not among the sources; these are the nine values that \<^verbatim>\<open>ReadFromFile\<close> assigns.
\<close>

datatype ProblemDefinition =
  PROBLEM_LINEAR | PROBLEM_CYL | PROBLEM_KH | PROBLEM_RIEMANN | PROBLEM_SOD |
  PROBLEM_BLAST | PROBLEM_VORTEX | PROBLEM_NOH | PROBLEM_SOURCE

text \<open>
  The fields of \<^verbatim>\<open>MeshParameter\<close> that \<^verbatim>\<open>ReadFromFile\<close> writes. \<open>'r\<close> is the floating-point
  type \<^verbatim>\<open>real\<close> of the program, left abstract.
\<close>

record 'r MeshParameter =
  problemDef :: ProblemDefinition
  equivalentPointsX :: int
  minx :: 'r
  maxx :: 'r
  miny :: 'r
  maxy :: 'r
  periodicFlagX :: int
  periodicFlagY :: int
  adaptiveMeshFlag :: int
  maxRefineFactor :: int
  nStepSkipRefine :: int
  nStepSkipCoarsen :: int
  minError :: 'r
  maxError :: 'r
  qualityBound :: 'r
  structuredFlag :: int
  baseResolution :: 'r
  maxResolution :: 'r

text \<open>
  The C library and the floating-point arithmetic that the function relies on:
  \<^verbatim>\<open>atof\<close>, the conversions of its \<^verbatim>\<open>double\<close> result to \<^verbatim>\<open>int\<close> and to \<^verbatim>\<open>real\<close>, and the
  two resolution formulas at the end of the function.
\<close>

record 'r libc =
  atof_int :: "string \<Rightarrow> int"
  atof_real :: "string \<Rightarrow> 'r"
  base_resolution :: "int \<Rightarrow> 'r \<Rightarrow> 'r \<Rightarrow> 'r"
  max_resolution :: "'r \<Rightarrow> int \<Rightarrow> 'r"

text \<open>\<^verbatim>\<open>isspace\<close> in the C locale: space, \<^verbatim>\<open>\t\<close>, \<^verbatim>\<open>\n\<close>, \<^verbatim>\<open>\v\<close>, \<^verbatim>\<open>\f\<close>, \<^verbatim>\<open>\r\<close>.\<close>

definition isspace :: "char \<Rightarrow> bool" where
  "isspace c \<longleftrightarrow> c \<in> {CHR '' '', CHR 0x09, CHR 0x0A, CHR 0x0B, CHR 0x0C, CHR 0x0D}"

text \<open>
  \<^verbatim>\<open>iss >> word\<close>: skip white space, then take the characters up to the next white space.
  The result is the word and the rest of the stream; at the end of the stream the word is
  empty.
\<close>

definition extract_word :: "string \<Rightarrow> string \<times> string" where
  "extract_word s =
     (let s' = dropWhile isspace s
      in (takeWhile (\<lambda>c. \<not> isspace c) s', dropWhile (\<lambda>c. \<not> isspace c) s'))"

text \<open>\<^verbatim>\<open>w.find_first_not_of(cs)\<close>; \<open>None\<close> is \<^verbatim>\<open>std::string::npos\<close>.\<close>

fun find_first_not_of :: "string \<Rightarrow> string \<Rightarrow> nat option" where
  "find_first_not_of [] cs = None"
| "find_first_not_of (c # w) cs =
     (if c \<in> set cs then map_option Suc (find_first_not_of w cs) else Some 0)"

text \<open>The body of the \<^verbatim>\<open>while (getline(inFile, line))\<close> loop, for the two words of a line.\<close>

definition read_words ::
  "'r libc \<Rightarrow> string \<Rightarrow> string \<Rightarrow> 'r MeshParameter \<Rightarrow> 'r MeshParameter" where
  "read_words lc firstWord secondWord mp0 =
     (let
        mp = mp0;
        mp = (if firstWord = ''problemDefinition'' then
               (let
                  mp = (if secondWord = ''LIN'' then mp\<lparr>problemDef := PROBLEM_LINEAR\<rparr> else mp);
                  mp = (if secondWord = ''CYL'' then mp\<lparr>problemDef := PROBLEM_CYL\<rparr> else mp);
                  mp = (if secondWord = ''KH'' then mp\<lparr>problemDef := PROBLEM_KH\<rparr> else mp);
                  mp = (if secondWord = ''RIEMANN'' then mp\<lparr>problemDef := PROBLEM_RIEMANN\<rparr> else mp);
                  mp = (if secondWord = ''SOD'' then mp\<lparr>problemDef := PROBLEM_SOD\<rparr> else mp);
                  mp = (if secondWord = ''BLAST'' then mp\<lparr>problemDef := PROBLEM_BLAST\<rparr> else mp);
                  mp = (if secondWord = ''VORTEX'' then mp\<lparr>problemDef := PROBLEM_VORTEX\<rparr> else mp);
                  mp = (if secondWord = ''NOH'' then mp\<lparr>problemDef := PROBLEM_NOH\<rparr> else mp);
                  mp = (if secondWord = ''SOURCE'' then mp\<lparr>problemDef := PROBLEM_SOURCE\<rparr> else mp)
                in mp)
              else mp);
        mp = (if firstWord = ''equivalentPointsX'' then
               (if secondWord \<noteq> [] \<and> find_first_not_of secondWord ''0123456789'' = None
                then mp\<lparr>equivalentPointsX := atof_int lc secondWord\<rparr> else mp)
              else mp);
        mp = (if firstWord = ''minX'' then
               (if secondWord \<noteq> [] \<and> find_first_not_of secondWord ''0123456789-.e'' = None
                then mp\<lparr>minx := atof_real lc secondWord\<rparr> else mp)
              else mp);
        mp = (if firstWord = ''maxX'' then
               (if secondWord \<noteq> [] \<and> find_first_not_of secondWord ''0123456789-.e'' = None
                then mp\<lparr>maxx := atof_real lc secondWord\<rparr> else mp)
              else mp);
        mp = (if firstWord = ''minY'' then
               (if secondWord \<noteq> [] \<and> find_first_not_of secondWord ''0123456789-.e'' = None
                then mp\<lparr>miny := atof_real lc secondWord\<rparr> else mp)
              else mp);
        mp = (if firstWord = ''maxY'' then
               (if secondWord \<noteq> [] \<and> find_first_not_of secondWord ''0123456789-.e'' = None
                then mp\<lparr>maxy := atof_real lc secondWord\<rparr> else mp)
              else mp);
        mp = (if firstWord = ''periodicFlagX'' then
               (if secondWord \<noteq> [] \<and> find_first_not_of secondWord ''01'' = None
                then mp\<lparr>periodicFlagX := atof_int lc secondWord\<rparr> else mp)
              else mp);
        mp = (if firstWord = ''periodicFlagY'' then
               (if secondWord \<noteq> [] \<and> find_first_not_of secondWord ''01'' = None
                then mp\<lparr>periodicFlagY := atof_int lc secondWord\<rparr> else mp)
              else mp);
        mp = (if firstWord = ''adaptiveMeshFlag'' then
               (if secondWord \<noteq> [] \<and> find_first_not_of secondWord ''01'' = None
                then mp\<lparr>adaptiveMeshFlag := atof_int lc secondWord\<rparr> else mp)
              else mp);
        mp = (if firstWord = ''maxRefineFactor'' then
               (if secondWord \<noteq> [] \<and> find_first_not_of secondWord ''0123456789'' = None
                then mp\<lparr>maxRefineFactor := atof_int lc secondWord\<rparr> else mp)
              else mp);
        mp = (if firstWord = ''nStepSkipRefine'' then
               (if secondWord \<noteq> [] \<and> find_first_not_of secondWord ''0123456789'' = None
                then mp\<lparr>nStepSkipRefine := atof_int lc secondWord\<rparr> else mp)
              else mp);
        mp = (if firstWord = ''nStepSkipCoarsen'' then
               (if secondWord \<noteq> [] \<and> find_first_not_of secondWord ''0123456789'' = None
                then mp\<lparr>nStepSkipCoarsen := atof_int lc secondWord\<rparr> else mp)
              else mp);
        mp = (if firstWord = ''minError'' then
               (if secondWord \<noteq> [] \<and> find_first_not_of secondWord ''0123456789.-e'' = None
                then mp\<lparr>minError := atof_real lc secondWord\<rparr> else mp)
              else mp);
        mp = (if firstWord = ''maxError'' then
               (if secondWord \<noteq> [] \<and> find_first_not_of secondWord ''0123456789.-e'' = None
                then mp\<lparr>maxError := atof_real lc secondWord\<rparr> else mp)
              else mp);
        mp = (if firstWord = ''qualityBound'' then
               (if secondWord \<noteq> [] \<and> find_first_not_of secondWord ''0123456789.-e'' = None
                then mp\<lparr>qualityBound := atof_real lc secondWord\<rparr> else mp)
              else mp);
        mp = (if firstWord = ''structuredFlag'' then
               (if secondWord \<noteq> [] \<and> find_first_not_of secondWord ''012'' = None
                then mp\<lparr>structuredFlag := atof_int lc secondWord\<rparr> else mp)
              else mp)
      in mp)"

definition read_line :: "'r libc \<Rightarrow> string \<Rightarrow> 'r MeshParameter \<Rightarrow> 'r MeshParameter" where
  "read_line lc line mp =
     (let (firstWord, rest) = extract_word line;
          (secondWord, rest') = extract_word rest
      in read_words lc firstWord secondWord mp)"

text \<open>The \<^verbatim>\<open>while (getline(inFile, line))\<close> loop over the lines of the file.\<close>

fun read_lines :: "'r libc \<Rightarrow> string list \<Rightarrow> 'r MeshParameter \<Rightarrow> 'r MeshParameter" where
  "read_lines lc [] mp = mp"
| "read_lines lc (line # ls) mp = read_lines lc ls (read_line lc line mp)"

text \<open>
  The two places at which the function throws: the \<^verbatim>\<open>std::runtime_error\<close> when the file
  cannot be opened, and the exception of \<^verbatim>\<open>CheckValidity\<close>, thrown again by the handler.
\<close>

datatype read_error = Error_opening_file | Parameters_not_valid

text \<open>
  \<^verbatim>\<open>MeshParameter::ReadFromFile\<close>. The file is \<open>None\<close> when it cannot be opened and the list
  of its lines otherwise. \<^verbatim>\<open>CheckValidity\<close> is defined in a file that is not among the
  sources; it is a parameter that says of a parameter set whether the check returns
  (\<open>True\<close>) or throws.
\<close>

definition ReadFromFile ::
  "'r libc \<Rightarrow> ('r MeshParameter \<Rightarrow> bool) \<Rightarrow> string list option \<Rightarrow> 'r MeshParameter \<Rightarrow>
     read_error + 'r MeshParameter" where
  "ReadFromFile lc CheckValidity inFile mp0 =
     (case inFile of
        None \<Rightarrow> Inl Error_opening_file
      | Some ls \<Rightarrow>
          (let mp = read_lines lc ls mp0
           in if \<not> CheckValidity mp then Inl Parameters_not_valid
              else
                (let nx = equivalentPointsX mp - 1;
                     mp = mp\<lparr>baseResolution := base_resolution lc nx (maxx mp) (minx mp)\<rparr>;
                     mp = mp\<lparr>maxResolution := max_resolution lc (baseResolution mp) (maxRefineFactor mp)\<rparr>
                 in Inr mp)))"

text \<open>
  The numeric parameters that the function recognises, each with the characters that its
  value may consist of, and the names of the problem definitions.
\<close>

definition param_chars :: "(string \<times> string) list" where
  "param_chars = [
     (''equivalentPointsX'', ''0123456789''),
     (''minX'', ''0123456789-.e''),
     (''maxX'', ''0123456789-.e''),
     (''minY'', ''0123456789-.e''),
     (''maxY'', ''0123456789-.e''),
     (''periodicFlagX'', ''01''),
     (''periodicFlagY'', ''01''),
     (''adaptiveMeshFlag'', ''01''),
     (''maxRefineFactor'', ''0123456789''),
     (''nStepSkipRefine'', ''0123456789''),
     (''nStepSkipCoarsen'', ''0123456789''),
     (''minError'', ''0123456789.-e''),
     (''maxError'', ''0123456789.-e''),
     (''qualityBound'', ''0123456789.-e''),
     (''structuredFlag'', ''012'')]"

definition problem_names :: "string list" where
  "problem_names =
     [''LIN'', ''CYL'', ''KH'', ''RIEMANN'', ''SOD'', ''BLAST'', ''VORTEX'', ''NOH'', ''SOURCE'']"

section \<open>The coarsening cycles (Coarsen::RemoveVertices)\<close>

text \<open>
  Modelled from the spec: the body of \<^verbatim>\<open>Coarsen::RemoveVertices\<close>, of which the sources
  hold only the declaration in \<^verbatim>\<open>coarsen.h\<close>. The specification says: "Loop up to a
  caller-supplied cycle cap; stops early once no removal candidates remain." One cycle
  looks for removal candidates in the mesh \<open>s\<close> (\<open>candidates s\<close> is how many it finds) and,
  when there are some, removes them (\<open>remove s\<close>). The result is the mesh and the number
  of cycles that were run.
\<close>

fun removal_cycles :: "('s \<Rightarrow> nat) \<Rightarrow> ('s \<Rightarrow> 's) \<Rightarrow> nat \<Rightarrow> 's \<Rightarrow> 's \<times> nat" where
  "removal_cycles candidates remove 0 s = (s, 0)"
| "removal_cycles candidates remove (Suc cap) s =
     (if candidates s = 0 then (s, 1)
      else (let (s', n) = removal_cycles candidates remove cap (remove s) in (s', Suc n)))"

definition RemoveVertices :: "('s \<Rightarrow> nat) \<Rightarrow> ('s \<Rightarrow> 's) \<Rightarrow> int \<Rightarrow> 's \<Rightarrow> 's \<times> nat" where
  "RemoveVertices candidates remove maxCycle s =
     removal_cycles candidates remove (nat maxCycle) s"


section \<open>Verification: memory accesses\<close>

lemma rd_Some_iff: "rd xs i = Some v \<longleftrightarrow> 0 \<le> i \<and> i < int (length xs) \<and> xs ! nat i = v"
  by (auto simp: rd_def)

lemma wr_Some_iff: "wr xs i v = Some ys \<longleftrightarrow> 0 \<le> i \<and> i < int (length xs) \<and> ys = xs[nat i := v]"
  by (auto simp: wr_def)

lemma rd_None_iff: "rd xs i = None \<longleftrightarrow> \<not> (0 \<le> i \<and> i < int (length xs))"
  by (auto simp: rd_def)

section \<open>Verification: a single edge repair\<close>

text \<open>What one slot becomes, and what the whole entry becomes.\<close>

definition repair_slot :: "int \<Rightarrow> int list \<Rightarrow> int3 list \<Rightarrow> int \<Rightarrow> int option" where
  "repair_slot i pTsub pTe t =
     (if t = - 1 then Some t
      else case (rd pTsub t, rd pTe t) of
        (Some tS, Some te) \<Rightarrow> Some (if i \<noteq> i3x te \<and> i \<noteq> i3y te \<and> i \<noteq> i3z te then tS else t)
      | _ \<Rightarrow> None)"

definition repair_entry :: "int \<Rightarrow> int list \<Rightarrow> int3 list \<Rightarrow> int2 \<Rightarrow> int2 option" where
  "repair_entry i pTsub pTe et =
     (case (repair_slot i pTsub pTe (i2x et), repair_slot i pTsub pTe (i2y et)) of
        (Some t1, Some t2) \<Rightarrow> Some (et\<lparr>i2x := t1, i2y := t2\<rparr>)
      | _ \<Rightarrow> None)"

lemma slot_block:
  "(if t \<noteq> - 1 then
      do {
        tS \<leftarrow> rd pTsub t;
        te \<leftarrow> rd pTe t;
        let e1 = i3x te; e2 = i3y te; e3 = i3z te
        in Some (if i \<noteq> e1 \<and> i \<noteq> e2 \<and> i \<noteq> e3 then tS else t)
      }
    else Some t) = repair_slot i pTsub pTe t"
  by (cases "rd pTsub t"; cases "rd pTe t") (simp_all add: repair_slot_def Let_def)

lemma SingleEdgeRepair_eq:
  "SingleEdgeRepair i pTsub pTe pEt =
     (case rd pEt i of None \<Rightarrow> None
      | Some et \<Rightarrow> (case repair_entry i pTsub pTe et of None \<Rightarrow> None
                   | Some et' \<Rightarrow> Some (pEt[nat i := et'])))"
proof (cases "rd pEt i")
  case None
  then show ?thesis by (simp add: SingleEdgeRepair_def)
next
  case (Some et)
  then have i: "0 \<le> i" "i < int (length pEt)" and et: "pEt ! nat i = et"
    by (simp_all add: rd_Some_iff)
  have w: "\<And>v. wr pEt i v = Some (pEt[nat i := v])" using i by (simp add: wr_def)
  have r': "\<And>v. rd (pEt[nat i := v]) i = Some v" using i by (simp add: rd_def)
  have w': "\<And>v u. wr (pEt[nat i := v]) i u = Some (pEt[nat i := u])" using i by (simp add: wr_def)
  show ?thesis
    unfolding SingleEdgeRepair_def slot_block
    by (cases "repair_slot i pTsub pTe (i2x et)"; cases "repair_slot i pTsub pTe (i2y et)")
       (simp_all add: Some repair_entry_def w r' w')
qed


text \<open>
  Claim C8. A slot of an edge-triangle entry that holds the sentinel \<open>-1\<close> before
  \<^verbatim>\<open>SingleEdgeRepair\<close> holds \<open>-1\<close> after it, for the repaired edge and for every other
  edge; no entry appears or disappears.
\<close>

theorem SingleEdgeRepair_keeps_sentinels:
  assumes "SingleEdgeRepair i pTsub pTe pEt = Some pEt'"
  shows "length pEt' = length pEt \<and>
         (\<forall>j < length pEt.
            (i2x (pEt ! j) = - 1 \<longrightarrow> i2x (pEt' ! j) = - 1) \<and>
            (i2y (pEt ! j) = - 1 \<longrightarrow> i2y (pEt' ! j) = - 1))"
proof -
  from assms obtain et et' where et: "rd pEt i = Some et"
    and et': "repair_entry i pTsub pTe et = Some et'" and p: "pEt' = pEt[nat i := et']"
    by (auto simp: SingleEdgeRepair_eq split: option.splits)
  from et have i: "nat i < length pEt" "pEt ! nat i = et" by (auto simp: rd_Some_iff)
  from et' obtain t1 t2 where t: "repair_slot i pTsub pTe (i2x et) = Some t1"
    "repair_slot i pTsub pTe (i2y et) = Some t2" "et' = et\<lparr>i2x := t1, i2y := t2\<rparr>"
    by (auto simp: repair_entry_def split: option.splits)
  have x: "i2x et = - 1 \<Longrightarrow> i2x et' = - 1" using t by (simp add: repair_slot_def)
  have y: "i2y et = - 1 \<Longrightarrow> i2y et' = - 1" using t by (simp add: repair_slot_def)
  have "\<And>j. j < length pEt \<Longrightarrow>
      (i2x (pEt ! j) = - 1 \<longrightarrow> i2x (pEt' ! j) = - 1) \<and>
      (i2y (pEt ! j) = - 1 \<longrightarrow> i2y (pEt' ! j) = - 1)"
    using i x y by (auto simp: p nth_list_update)
  then show ?thesis by (simp add: p)
qed

theorem SingleEdgeRepair_keeps_sentinels_witness:
  "SingleEdgeRepair 0 [7] [\<lparr>i3x = 1, i3y = 2, i3z = 3\<rparr>] [\<lparr>i2x = - 1, i2y = 0\<rparr>]
     = Some [\<lparr>i2x = - 1, i2y = 7\<rparr>] \<and>
   i2x ([\<lparr>i2x = - 1, i2y = 7\<rparr>] ! 0) = - 1"
proof -
  have h: "SingleEdgeRepair 0 [7] [\<lparr>i3x = 1, i3y = 2, i3z = 3\<rparr>] [\<lparr>i2x = - 1, i2y = 0\<rparr>]
     = Some [\<lparr>i2x = - 1, i2y = 7\<rparr>]"
    by (simp add: SingleEdgeRepair_eq rd_def repair_entry_def repair_slot_def)
  from SingleEdgeRepair_keeps_sentinels [OF h] h show ?thesis by simp
qed

section \<open>Verification: the index reduction loops\<close>

lemma sint_sub_no_wrap:
  fixes a n :: "32 word"
  assumes "1 \<le> sint n" "sint n \<le> sint a"
  shows "sint (a - n) = sint a - sint n"
proof -
  have "sint a < 2 ^ 31" using sint_lt [of a] by simp
  with assms have "- (2 ^ 31) \<le> sint a - sint n" "sint a - sint n < 2 ^ 31" by linarith+
  then show ?thesis
    by (simp add: sint_word_ariths signed_take_bit_int_eq_self)
qed

lemma sint_add_no_wrap:
  fixes a n :: "32 word"
  assumes "1 \<le> sint n" "sint a < 0"
  shows "sint (a + n) = sint a + sint n"
proof -
  have "sint n < 2 ^ 31" "- (2 ^ 31) \<le> sint a" using sint_lt [of n] sint_ge [of a] by simp_all
  with assms have "- (2 ^ 31) \<le> sint a + sint n" "sint a + sint n < 2 ^ 31" by linarith+
  then show ?thesis
    by (simp add: sint_word_ariths signed_take_bit_int_eq_self)
qed

lemma while_ge_result:
  fixes a n :: "32 word"
  assumes n: "1 \<le> sint n"
  shows "\<exists>r. while_ge n a = Some r \<and>
     (if 0 \<le> sint a then sint r = sint a mod sint n else r = a)"
proof (induction "nat (sint a)" arbitrary: a rule: less_induct)
  case less
  show ?case
  proof (cases "sint n \<le> sint a")
    case True
    have s: "sint (a - n) = sint a - sint n" using n True by (rule sint_sub_no_wrap)
    have "nat (sint (a - n)) < nat (sint a)" using n True s by simp
    from less [OF this] obtain r where r: "while_ge n (a - n) = Some r"
      "(if 0 \<le> sint (a - n) then sint r = sint (a - n) mod sint n else r = a - n)" by blast
    have "0 \<le> sint (a - n)" using s True by simp
    with r s have "sint r = (sint a - sint n) mod sint n" by simp
    then have "sint r = sint a mod sint n" by simp
    moreover have "while_ge n a = Some r" using True r(1) by (subst while_ge.simps) simp
    moreover have "0 \<le> sint a" using n True by simp
    ultimately show ?thesis by simp
  next
    case False
    then have "while_ge n a = Some a" by (subst while_ge.simps) simp
    moreover have "0 \<le> sint a \<Longrightarrow> sint a mod sint n = sint a" using False by simp
    ultimately show ?thesis by simp
  qed
qed

lemma while_neg_result:
  fixes a n :: "32 word"
  assumes n: "1 \<le> sint n"
  shows "sint a < sint n \<Longrightarrow> \<exists>r. while_neg n a = Some r \<and> sint r = sint a mod sint n"
proof (induction "nat (- sint a)" arbitrary: a rule: less_induct)
  case less
  show ?case
  proof (cases "sint a < 0")
    case True
    have s: "sint (a + n) = sint a + sint n" using n True by (rule sint_add_no_wrap)
    have "nat (- sint (a + n)) < nat (- sint a)" using n True s by simp
    moreover have "sint (a + n) < sint n" using s True by simp
    ultimately obtain r where r: "while_neg n (a + n) = Some r" "sint r = sint (a + n) mod sint n"
      using less(1) by blast
    have "while_neg n a = Some r" using True r(1) by (subst while_neg.simps) simp
    moreover have "sint r = sint a mod sint n" using r(2) s by simp
    ultimately show ?thesis by simp
  next
    case False
    then have "while_neg n a = Some a" by (subst while_neg.simps) simp
    moreover have "sint a mod sint n = sint a" using False less.prems by simp
    ultimately show ?thesis by simp
  qed
qed

lemma mod_unique_in_range:
  fixes a n r' :: int
  assumes "0 < n" "0 \<le> r'" "r' < n" "(r' - a) mod n = 0"
  shows "r' = a mod n"
proof -
  have "r' mod n = a mod n" using assms(4) by (metis mod_eq_dvd_iff mod_0_imp_dvd)
  then show ?thesis using assms by simp
qed

text \<open>
  Claim C2. For every 32-bit index \<open>a\<close> and every vertex count \<open>nVertex \<ge> 1\<close> the two
  reduction loops return, and their result is the one value in \<open>[0, nVertex)\<close> that is
  congruent to \<open>a\<close> modulo \<open>nVertex\<close>, hence a valid subscript of an array of
  \<open>nVertex\<close> elements.
\<close>

theorem reduce_index_correct:
  fixes a nVertex :: "32 word"
  assumes "1 \<le> sint nVertex"
  shows "\<exists>r. reduce_index nVertex a = Some r \<and> 0 \<le> sint r \<and> sint r < sint nVertex \<and>
           (sint r - sint a) mod sint nVertex = 0 \<and>
           (\<forall>r'. 0 \<le> r' \<and> r' < sint nVertex \<and> (r' - sint a) mod sint nVertex = 0 \<longrightarrow> r' = sint r)"
proof -
  obtain b where b: "while_ge nVertex a = Some b"
    "(if 0 \<le> sint a then sint b = sint a mod sint nVertex else b = a)"
    using while_ge_result [OF assms] by blast
  have blt: "sint b < sint nVertex" using b(2) assms by (auto split: if_splits)
  have bmod: "sint b mod sint nVertex = sint a mod sint nVertex" using b(2) by (auto split: if_splits)
  obtain r where r: "while_neg nVertex b = Some r" "sint r = sint b mod sint nVertex"
    using while_neg_result [OF assms blt] by blast
  have rr: "sint r = sint a mod sint nVertex" using r(2) bmod by simp
  have c1: "reduce_index nVertex a = Some r" by (simp add: reduce_index_def b(1) r(1))
  have c2: "0 \<le> sint r" and c3: "sint r < sint nVertex" using rr assms by simp_all
  have c4: "(sint r - sint a) mod sint nVertex = 0" using rr by (simp add: mod_diff_left_eq)
  have c5: "\<forall>r'. 0 \<le> r' \<and> r' < sint nVertex \<and> (r' - sint a) mod sint nVertex = 0 \<longrightarrow> r' = sint r"
  proof (intro allI impI)
    fix r' assume h: "0 \<le> r' \<and> r' < sint nVertex \<and> (r' - sint a) mod sint nVertex = 0"
    have "0 < sint nVertex" using assms by simp
    then have "r' = sint a mod sint nVertex"
      using h by (intro mod_unique_in_range) simp_all
    then show "r' = sint r" using rr by simp
  qed
  show ?thesis by (intro exI [of _ r] conjI c1 c2 c3 c4 c5)
qed

theorem reduce_index_witness:
  "1 \<le> sint (5 :: 32 word) \<and> reduce_index 5 12 = Some 2 \<and>
   (\<exists>r. reduce_index 5 12 = Some r \<and> 0 \<le> sint r \<and> sint r < sint (5 :: 32 word) \<and>
           (sint r - sint (12 :: 32 word)) mod sint (5 :: 32 word) = 0 \<and>
           (\<forall>r'. 0 \<le> r' \<and> r' < sint (5 :: 32 word) \<and> (r' - sint (12 :: 32 word)) mod sint (5 :: 32 word) = 0 \<longrightarrow> r' = sint r))"
proof -
  have h: "1 \<le> sint (5 :: 32 word)" by simp
  have w2: "while_ge 5 2 = Some 2" by (subst while_ge.simps) simp
  have w7: "while_ge 5 7 = Some 2" by (subst while_ge.simps) (simp add: w2)
  have w12: "while_ge 5 12 = Some 2" by (subst while_ge.simps) (simp add: w7)
  have n2: "while_neg 5 2 = Some 2" by (subst while_neg.simps) simp
  have b: "reduce_index 5 12 = Some 2" by (simp add: reduce_index_def w12 n2)
  show ?thesis by (intro conjI h b reduce_index_correct [OF h])
qed



section \<open>Verification: reading the mesh parameters\<close>


lemma find_first_not_of_None: "find_first_not_of w cs = None \<longleftrightarrow> set w \<subseteq> set cs"
  by (induction w) auto

text \<open>What a line does, parameter by parameter.\<close>

lemma read_words_equivalentPointsX:
  "read_words lc ''equivalentPointsX'' w mp =
     (if w \<noteq> [] \<and> find_first_not_of w ''0123456789'' = None
      then mp\<lparr>equivalentPointsX := atof_int lc w\<rparr> else mp)"
  by (simp add: read_words_def)

lemma read_words_minX:
  "read_words lc ''minX'' w mp =
     (if w \<noteq> [] \<and> find_first_not_of w ''0123456789-.e'' = None
      then mp\<lparr>minx := atof_real lc w\<rparr> else mp)"
  by (simp add: read_words_def)

lemma read_words_maxX:
  "read_words lc ''maxX'' w mp =
     (if w \<noteq> [] \<and> find_first_not_of w ''0123456789-.e'' = None
      then mp\<lparr>maxx := atof_real lc w\<rparr> else mp)"
  by (simp add: read_words_def)

lemma read_words_minY:
  "read_words lc ''minY'' w mp =
     (if w \<noteq> [] \<and> find_first_not_of w ''0123456789-.e'' = None
      then mp\<lparr>miny := atof_real lc w\<rparr> else mp)"
  by (simp add: read_words_def)

lemma read_words_maxY:
  "read_words lc ''maxY'' w mp =
     (if w \<noteq> [] \<and> find_first_not_of w ''0123456789-.e'' = None
      then mp\<lparr>maxy := atof_real lc w\<rparr> else mp)"
  by (simp add: read_words_def)

lemma read_words_periodicFlagX:
  "read_words lc ''periodicFlagX'' w mp =
     (if w \<noteq> [] \<and> find_first_not_of w ''01'' = None
      then mp\<lparr>periodicFlagX := atof_int lc w\<rparr> else mp)"
  by (simp add: read_words_def)

lemma read_words_periodicFlagY:
  "read_words lc ''periodicFlagY'' w mp =
     (if w \<noteq> [] \<and> find_first_not_of w ''01'' = None
      then mp\<lparr>periodicFlagY := atof_int lc w\<rparr> else mp)"
  by (simp add: read_words_def)

lemma read_words_adaptiveMeshFlag:
  "read_words lc ''adaptiveMeshFlag'' w mp =
     (if w \<noteq> [] \<and> find_first_not_of w ''01'' = None
      then mp\<lparr>adaptiveMeshFlag := atof_int lc w\<rparr> else mp)"
  by (simp add: read_words_def)

lemma read_words_maxRefineFactor:
  "read_words lc ''maxRefineFactor'' w mp =
     (if w \<noteq> [] \<and> find_first_not_of w ''0123456789'' = None
      then mp\<lparr>maxRefineFactor := atof_int lc w\<rparr> else mp)"
  by (simp add: read_words_def)

lemma read_words_nStepSkipRefine:
  "read_words lc ''nStepSkipRefine'' w mp =
     (if w \<noteq> [] \<and> find_first_not_of w ''0123456789'' = None
      then mp\<lparr>nStepSkipRefine := atof_int lc w\<rparr> else mp)"
  by (simp add: read_words_def)

lemma read_words_nStepSkipCoarsen:
  "read_words lc ''nStepSkipCoarsen'' w mp =
     (if w \<noteq> [] \<and> find_first_not_of w ''0123456789'' = None
      then mp\<lparr>nStepSkipCoarsen := atof_int lc w\<rparr> else mp)"
  by (simp add: read_words_def)

lemma read_words_minError:
  "read_words lc ''minError'' w mp =
     (if w \<noteq> [] \<and> find_first_not_of w ''0123456789.-e'' = None
      then mp\<lparr>minError := atof_real lc w\<rparr> else mp)"
  by (simp add: read_words_def)

lemma read_words_maxError:
  "read_words lc ''maxError'' w mp =
     (if w \<noteq> [] \<and> find_first_not_of w ''0123456789.-e'' = None
      then mp\<lparr>maxError := atof_real lc w\<rparr> else mp)"
  by (simp add: read_words_def)

lemma read_words_qualityBound:
  "read_words lc ''qualityBound'' w mp =
     (if w \<noteq> [] \<and> find_first_not_of w ''0123456789.-e'' = None
      then mp\<lparr>qualityBound := atof_real lc w\<rparr> else mp)"
  by (simp add: read_words_def)

lemma read_words_structuredFlag:
  "read_words lc ''structuredFlag'' w mp =
     (if w \<noteq> [] \<and> find_first_not_of w ''012'' = None
      then mp\<lparr>structuredFlag := atof_int lc w\<rparr> else mp)"
  by (simp add: read_words_def)

lemmas read_words_numeric =
  read_words_equivalentPointsX
  read_words_minX
  read_words_maxX
  read_words_minY
  read_words_maxY
  read_words_periodicFlagX
  read_words_periodicFlagY
  read_words_adaptiveMeshFlag
  read_words_maxRefineFactor
  read_words_nStepSkipRefine
  read_words_nStepSkipCoarsen
  read_words_minError
  read_words_maxError
  read_words_qualityBound
  read_words_structuredFlag

lemma read_words_problemDefinition:
  "w \<notin> set problem_names \<Longrightarrow> read_words lc ''problemDefinition'' w mp = mp"
  by (simp add: read_words_def problem_names_def)

lemma read_words_invalid_all:
  "list_all (\<lambda>(p, cs). \<forall>w mp. w = [] \<or> find_first_not_of w cs \<noteq> None \<longrightarrow>
      read_words lc p w mp = mp) param_chars"
  unfolding param_chars_def by (auto simp: read_words_numeric)

lemma read_words_invalid:
  assumes "map_of param_chars firstWord = Some cs"
    and "secondWord = [] \<or> (\<exists>c \<in> set secondWord. c \<notin> set cs)"
  shows "read_words lc firstWord secondWord mp = mp"
proof -
  have a: "secondWord = [] \<or> find_first_not_of secondWord cs \<noteq> None"
    using assms(2) by (auto simp: find_first_not_of_None)
  have "(firstWord, cs) \<in> set param_chars" using assms(1) by (rule map_of_SomeD)
  with read_words_invalid_all [of lc] a show ?thesis
    unfolding list_all_iff by blast
qed


text \<open>
  Claim C10. A line that names a recognised numeric parameter and whose value is empty
  or holds a character outside the parameter's character set leaves all parameters as
  they were and throws nothing (\<open>read_line\<close> returns a parameter set, never an error).
  \<^verbatim>\<open>ReadFromFile\<close> throws in exactly two cases: the file cannot be opened, or
  \<^verbatim>\<open>CheckValidity\<close> throws on the parameters read from the whole file.
\<close>

theorem ReadFromFile_invalid_value_kept:
  "(\<forall>line p rest w rest' cs mp.
      extract_word line = (p, rest) \<and> extract_word rest = (w, rest') \<and>
      map_of param_chars p = Some cs \<and> (w = [] \<or> (\<exists>c \<in> set w. c \<notin> set cs))
      \<longrightarrow> read_line lc line mp = mp) \<and>
   (\<forall>e. ReadFromFile lc CheckValidity inFile mp0 = Inl e \<longleftrightarrow>
      (inFile = None \<and> e = Error_opening_file) \<or>
      (\<exists>ls. inFile = Some ls \<and> \<not> CheckValidity (read_lines lc ls mp0) \<and>
         e = Parameters_not_valid))"
proof (intro conjI allI impI)
  fix line p rest w rest' cs and mp :: "'a MeshParameter"
  assume h: "extract_word line = (p, rest) \<and> extract_word rest = (w, rest') \<and>
      map_of param_chars p = Some cs \<and> (w = [] \<or> (\<exists>c \<in> set w. c \<notin> set cs))"
  then have "read_words lc p w mp = mp" by (intro read_words_invalid [of p cs]) simp_all
  with h show "read_line lc line mp = mp" by (simp add: read_line_def)
next
  fix e
  show "ReadFromFile lc CheckValidity inFile mp0 = Inl e \<longleftrightarrow>
      (inFile = None \<and> e = Error_opening_file) \<or>
      (\<exists>ls. inFile = Some ls \<and> \<not> CheckValidity (read_lines lc ls mp0) \<and>
         e = Parameters_not_valid)"
    by (cases inFile) (auto simp: ReadFromFile_def Let_def)
qed

theorem ReadFromFile_invalid_value_kept_witness:
  "(\<forall>(lc :: int libc) mp. read_line lc ''minX  1.5x # left'' mp = mp) \<and>
   (\<forall>(lc :: int libc) cv mp. ReadFromFile lc cv None mp = Inl Error_opening_file)"
proof (intro conjI allI)
  fix lc :: "int libc" and mp :: "int MeshParameter"
  have 1: "extract_word ''minX  1.5x # left'' = (''minX'', ''  1.5x # left'')"
    by (simp add: extract_word_def isspace_def)
  have 2: "extract_word ''  1.5x # left'' = (''1.5x'', '' # left'')"
    by (simp add: extract_word_def isspace_def)
  have 3: "map_of param_chars ''minX'' = Some ''0123456789-.e''"
    by (simp add: param_chars_def)
  have 4: "\<exists>c \<in> set ''1.5x''. c \<notin> set ''0123456789-.e''" by simp
  from ReadFromFile_invalid_value_kept [of lc, THEN conjunct1] 1 2 3 4
  show "read_line lc ''minX  1.5x # left'' mp = mp" by blast
next
  fix lc :: "int libc" and cv and mp :: "int MeshParameter"
  from ReadFromFile_invalid_value_kept [of lc cv None mp, THEN conjunct2]
  show "ReadFromFile lc cv None mp = Inl Error_opening_file" by simp
qed

section \<open>Verification: launches without data races\<close>

text \<open>
  \<open>solo F p l m m'\<close>: the thread \<open>p\<close>, run alone from the local state \<open>l\<close> on the array \<open>m\<close>,
  returns and leaves the array \<open>m'\<close>, and every cell it accesses is in \<open>F\<close>.
\<close>

inductive solo :: "nat set \<Rightarrow> ('l, 'c) thread \<Rightarrow> 'l \<Rightarrow> 'c list \<Rightarrow> 'c list \<Rightarrow> bool"
  for F :: "nat set" and p :: "('l, 'c) thread" where
  solo_Halt: "p l = Halt \<Longrightarrow> solo F p l m m"
| solo_Tau: "p l = Tau l' \<Longrightarrow> solo F p l' m m' \<Longrightarrow> solo F p l m m'"
| solo_Access: "p l = Access a f \<Longrightarrow> a \<in> F \<Longrightarrow> a < length m \<Longrightarrow> f (m ! a) = (l', c) \<Longrightarrow>
     solo F p l' (m[a := c]) m' \<Longrightarrow> solo F p l m m'"

lemma solo_length: "solo F p l m m' \<Longrightarrow> length m' = length m"
  by (induction rule: solo.induct) simp_all

lemma solo_outside: "solo F p l m m' \<Longrightarrow> a \<notin> F \<Longrightarrow> m' ! a = m ! a"
  by (induction rule: solo.induct) (auto simp: nth_list_update)

text \<open>A solo run depends on the cells of its footprint only.\<close>

lemma solo_frame:
  "solo F p l m m' \<Longrightarrow> length m2 = length m \<Longrightarrow> (\<forall>a \<in> F. m2 ! a = m ! a) \<Longrightarrow>
     \<exists>m2'. solo F p l m2 m2' \<and> (\<forall>a \<in> F. m2' ! a = m' ! a)"
proof (induction arbitrary: m2 rule: solo.induct)
  case (solo_Halt l m)
  then show ?case by (blast intro: solo.solo_Halt)
next
  case (solo_Tau l l' m m')
  from solo_Tau.IH [OF solo_Tau.prems] obtain m2' where
    "solo F p l' m2 m2'" "\<forall>a \<in> F. m2' ! a = m' ! a" by blast
  with solo_Tau.hyps(1) show ?case by (blast intro: solo.solo_Tau)
next
  case (solo_Access l a f m l' c m')
  have len: "length (m2[a := c]) = length (m[a := c])" using solo_Access.prems by simp
  have agree: "\<forall>b \<in> F. m2[a := c] ! b = m[a := c] ! b"
    using solo_Access.prems solo_Access.hyps(3) by (auto simp: nth_list_update)
  from solo_Access.IH [OF len agree] obtain m2' where
    r: "solo F p l' (m2[a := c]) m2'" "\<forall>a \<in> F. m2' ! a = m' ! a" by blast
  have "f (m2 ! a) = (l', c)" using solo_Access.prems solo_Access.hyps by simp
  moreover have "a < length m2" using solo_Access.prems solo_Access.hyps by simp
  ultimately have "solo F p l m2 m2'"
    using solo_Access.hyps(1,2) r(1) by (blast intro: solo.solo_Access)
  with r(2) show ?case by blast
qed

text \<open>
  The invariant of a launch whose threads have pairwise disjoint footprints: every thread,
  run alone from where it stands, would leave on its footprint what it leaves when run
  alone from the start; nothing outside the footprints has changed.
\<close>

definition race_free_inv ::
  "(nat \<Rightarrow> ('l, 'c) thread) \<Rightarrow> nat \<Rightarrow> (nat \<Rightarrow> nat set) \<Rightarrow> (nat \<Rightarrow> 'c list) \<Rightarrow> 'c list \<Rightarrow>
     'l list \<times> 'c list \<Rightarrow> bool" where
  "race_free_inv kern G F M m0 cfg \<longleftrightarrow>
     (case cfg of (ls, m) \<Rightarrow>
        length ls = G \<and> length m = length m0 \<and>
        (\<forall>k < G. \<exists>m'. solo (F k) (kern k) (ls ! k) m m' \<and> (\<forall>a \<in> F k. m' ! a = M k ! a)) \<and>
        (\<forall>a. (\<forall>k < G. a \<notin> F k) \<longrightarrow> m ! a = m0 ! a))"

lemma race_free_inv_step:
  assumes disj: "\<forall>j < G. \<forall>k < G. j \<noteq> k \<longrightarrow> F j \<inter> F k = {}"
    and inv: "race_free_inv kern G F M m0 cfg"
  shows "\<exists>cfg'. grid_step kern k cfg = Some cfg' \<and> race_free_inv kern G F M m0 cfg'"
proof -
  obtain ls m where cfg: "cfg = (ls, m)" by (cases cfg)
  from inv cfg have len: "length ls = G" "length m = length m0"
    and thr: "\<And>j. j < G \<Longrightarrow> \<exists>m'. solo (F j) (kern j) (ls ! j) m m' \<and> (\<forall>a \<in> F j. m' ! a = M j ! a)"
    and out: "\<And>a. (\<forall>j < G. a \<notin> F j) \<Longrightarrow> m ! a = m0 ! a"
    by (auto simp: race_free_inv_def)
  show ?thesis
  proof (cases "k < G")
    case False
    then show ?thesis using inv cfg len by (simp add: grid_step_def)
  next
    case k: True
    from thr [OF k] obtain m' where s: "solo (F k) (kern k) (ls ! k) m m'"
      and mk: "\<forall>a \<in> F k. m' ! a = M k ! a" by blast
    from s show ?thesis
    proof (cases rule: solo.cases)
      case solo_Halt
      then show ?thesis using inv cfg len k by (simp add: grid_step_def thread_step_def)
    next
      case (solo_Tau l')
      have g: "grid_step kern k cfg = Some (ls[k := l'], m)"
        using solo_Tau cfg len k by (simp add: grid_step_def thread_step_def)
      have "race_free_inv kern G F M m0 (ls[k := l'], m)"
        unfolding race_free_inv_def
      proof (simp add: len out, intro allI impI)
        fix j assume j: "j < G"
        show "\<exists>m'. solo (F j) (kern j) (ls[k := l'] ! j) m m' \<and> (\<forall>a \<in> F j. m' ! a = M j ! a)"
        proof (cases "j = k")
          case True
          then show ?thesis using solo_Tau mk len k by auto
        next
          case False
          then show ?thesis using thr [OF j] by simp
        qed
      qed
      with g show ?thesis by blast
    next
      case (solo_Access a f l' c)
      have g: "grid_step kern k cfg = Some (ls[k := l'], m[a := c])"
        using solo_Access cfg len k by (simp add: grid_step_def thread_step_def)
      have "race_free_inv kern G F M m0 (ls[k := l'], m[a := c])"
        unfolding race_free_inv_def
      proof (simp add: len, intro conjI allI impI)
        fix j assume j: "j < G"
        show "\<exists>m'. solo (F j) (kern j) (ls[k := l'] ! j) (m[a := c]) m' \<and>
                (\<forall>a \<in> F j. m' ! a = M j ! a)"
        proof (cases "j = k")
          case True
          then show ?thesis using solo_Access mk len k by auto
        next
          case False
          from thr [OF j] obtain mj where mj: "solo (F j) (kern j) (ls ! j) m mj"
            "\<forall>a \<in> F j. mj ! a = M j ! a" by blast
          have "a \<notin> F j" using disj j k False solo_Access by blast
          then have "\<forall>b \<in> F j. m[a := c] ! b = m ! b" by (metis nth_list_update_neq)
          from solo_frame [OF mj(1) _ this] obtain m2 where
            "solo (F j) (kern j) (ls ! j) (m[a := c]) m2" "\<forall>b \<in> F j. m2 ! b = mj ! b"
            by auto
          with mj(2) False show ?thesis by auto
        qed
      next
        fix b assume "\<forall>j < G. b \<notin> F j"
        then have "b \<noteq> a" "m ! b = m0 ! b" using solo_Access k out by auto
        then show "m[a := c] ! b = m0 ! b" by simp
      qed
      with g show ?thesis by blast
    qed
  qed
qed

lemma race_free_inv_run:
  assumes disj: "\<forall>j < G. \<forall>k < G. j \<noteq> k \<longrightarrow> F j \<inter> F k = {}"
  shows "race_free_inv kern G F M m0 cfg \<Longrightarrow>
    \<exists>cfg'. run kern sched cfg = Some cfg' \<and> race_free_inv kern G F M m0 cfg'"
proof (induction sched arbitrary: cfg)
  case Nil
  then show ?case by simp
next
  case (Cons k ks)
  from race_free_inv_step [OF disj Cons.prems, of k] obtain c1 where
    c1: "grid_step kern k cfg = Some c1" "race_free_inv kern G F M m0 c1" by blast
  from Cons.IH [OF c1(2)] c1(1) show ?case by simp
qed


lemma run_append:
  "run kern (s1 @ s2) cfg = (case run kern s1 cfg of None \<Rightarrow> None | Some c \<Rightarrow> run kern s2 c)"
  by (induction s1 arbitrary: cfg) (auto split: option.splits)

text \<open>A thread that returns when run alone can be run to its end by scheduling it alone.\<close>

lemma solo_run:
  "solo F p l m m' \<Longrightarrow> p = kern k \<Longrightarrow> k < length ls \<Longrightarrow> ls ! k = l \<Longrightarrow>
     \<exists>n lh. run kern (replicate n k) (ls, m) = Some (ls[k := lh], m') \<and> kern k lh = Halt"
proof (induction arbitrary: ls rule: solo.induct)
  case (solo_Halt l m)
  have "ls[k := l] = ls" using solo_Halt.prems by (metis list_update_id)
  then have "run kern (replicate 0 k) (ls, m) = Some (ls[k := l], m)" by simp
  with solo_Halt show ?case by blast
next
  case (solo_Tau l l' m m')
  have g: "grid_step kern k (ls, m) = Some (ls[k := l'], m)"
    using solo_Tau.hyps(1) solo_Tau.prems by (simp add: grid_step_def thread_step_def)
  have "k < length (ls[k := l'])" "ls[k := l'] ! k = l'" using solo_Tau.prems by simp_all
  from solo_Tau.IH [OF solo_Tau.prems(1) this] obtain n lh where
    r: "run kern (replicate n k) (ls[k := l'], m) = Some (ls[k := l', k := lh], m')"
    "kern k lh = Halt" by blast
  have "run kern (replicate (Suc n) k) (ls, m) = Some (ls[k := lh], m')"
    using g r(1) by simp
  with r(2) show ?case by blast
next
  case (solo_Access l a f m l' c m')
  have g: "grid_step kern k (ls, m) = Some (ls[k := l'], m[a := c])"
    using solo_Access.hyps solo_Access.prems by (simp add: grid_step_def thread_step_def)
  have "k < length (ls[k := l'])" "ls[k := l'] ! k = l'" using solo_Access.prems by simp_all
  from solo_Access.IH [OF solo_Access.prems(1) this] obtain n lh where
    r: "run kern (replicate n k) (ls[k := l'], m[a := c]) = Some (ls[k := l', k := lh], m')"
    "kern k lh = Halt" by blast
  have "run kern (replicate (Suc n) k) (ls, m) = Some (ls[k := lh], m')"
    using g r(1) by simp
  with r(2) show ?case by blast
qed

lemma race_free_complete:
  assumes disj: "\<forall>j < G. \<forall>k < G. j \<noteq> k \<longrightarrow> F j \<inter> F k = {}"
    and inv: "race_free_inv kern G F M m0 cfg"
  shows "j \<le> G \<Longrightarrow> \<exists>sched ls m. run kern sched cfg = Some (ls, m) \<and>
     race_free_inv kern G F M m0 (ls, m) \<and> (\<forall>k < j. kern k (ls ! k) = Halt)"
proof (induction j)
  case 0
  obtain ls m where "cfg = (ls, m)" by (cases cfg)
  then have "run kern [] cfg = Some (ls, m)" by simp
  with inv \<open>cfg = (ls, m)\<close> show ?case by blast
next
  case (Suc j)
  then obtain s1 ls m where r1: "run kern s1 cfg = Some (ls, m)"
    and i1: "race_free_inv kern G F M m0 (ls, m)"
    and h1: "\<forall>k < j. kern k (ls ! k) = Halt" by auto
  from i1 have len: "length ls = G"
    and all: "\<forall>k < G. \<exists>m'. solo (F k) (kern k) (ls ! k) m m' \<and> (\<forall>a \<in> F k. m' ! a = M k ! a)"
    by (simp_all add: race_free_inv_def)
  from Suc.prems have "j < G" by simp
  with all obtain m' where s: "solo (F j) (kern j) (ls ! j) m m'" by blast
  have "j < length ls" using len \<open>j < G\<close> by simp
  with solo_run [where kern = kern and k = j and ls = ls, OF s] obtain n lh where
    r2: "run kern (replicate n j) (ls, m) = Some (ls[j := lh], m')" and hj: "kern j lh = Halt"
    by auto
  from race_free_inv_run [OF disj i1, of "replicate n j"] r2
  have i2: "race_free_inv kern G F M m0 (ls[j := lh], m')" by simp
  have r: "run kern (s1 @ replicate n j) cfg = Some (ls[j := lh], m')"
    by (simp add: run_append r1 r2)
  have "\<forall>k < Suc j. kern k (ls[j := lh] ! k) = Halt"
  proof (intro allI impI)
    fix k assume "k < Suc j"
    then show "kern k (ls[j := lh] ! k) = Halt"
      using h1 hj len Suc.prems by (cases "k = j") auto
  qed
  with r i2 show ?case by blast
qed

text \<open>
  Launches without data races. When every thread, run alone on the initial array \<open>m0\<close>,
  returns and leaves \<open>M k\<close>, touching cells of \<open>F k\<close> only, and the footprints of different
  threads are disjoint, then no schedule faults, some schedule runs all threads to their
  end, and every schedule that does so leaves the same array: that of thread \<open>k\<close> on \<open>F k\<close>,
  and the initial one elsewhere.
\<close>

lemma race_free_launch:
  assumes solos: "\<forall>k < G. solo (F k) (kern k) (init k) m0 (M k)"
    and disj: "\<forall>j < G. \<forall>k < G. j \<noteq> k \<longrightarrow> F j \<inter> F k = {}"
  shows "launch kern init G sched m0 \<noteq> Fault"
    and "launch kern init G sched m0 = Final m \<Longrightarrow>
           length m = length m0 \<and> (\<forall>k < G. \<forall>a \<in> F k. m ! a = M k ! a) \<and>
           (\<forall>a. (\<forall>k < G. a \<notin> F k) \<longrightarrow> m ! a = m0 ! a)"
    and "\<exists>sched' m'. launch kern init G sched' m0 = Final m'"
proof -
  have inv0: "race_free_inv kern G F M m0 (map init [0..<G], m0)"
    using solos by (auto simp: race_free_inv_def)
  from race_free_inv_run [OF disj inv0, of sched] obtain ls m1 where
    r: "run kern sched (map init [0..<G], m0) = Some (ls, m1)"
    and i: "race_free_inv kern G F M m0 (ls, m1)" by auto
  from r show "launch kern init G sched m0 \<noteq> Fault"
    by (simp add: launch_def)
  show "length m = length m0 \<and> (\<forall>k < G. \<forall>a \<in> F k. m ! a = M k ! a) \<and>
           (\<forall>a. (\<forall>k < G. a \<notin> F k) \<longrightarrow> m ! a = m0 ! a)"
    if fin: "launch kern init G sched m0 = Final m"
  proof -
    from fin r have m: "m = m1" and halt: "\<forall>k < G. kern k (ls ! k) = Halt"
      by (auto simp: launch_def split: if_splits)
    have "\<forall>k < G. \<forall>a \<in> F k. m1 ! a = M k ! a"
    proof (intro allI impI ballI)
      fix k a assume k: "k < G" and a: "a \<in> F k"
      from i k obtain m' where s: "solo (F k) (kern k) (ls ! k) m1 m'"
        and e: "\<forall>a \<in> F k. m' ! a = M k ! a" by (auto simp: race_free_inv_def)
      from s halt k have "m' = m1" by (cases rule: solo.cases) auto
      with e a show "m1 ! a = M k ! a" by simp
    qed
    with i m show ?thesis by (simp add: race_free_inv_def)
  qed
  from race_free_complete [OF disj inv0, of G] obtain s2 ls2 m2 where
    "run kern s2 (map init [0..<G], m0) = Some (ls2, m2)" "\<forall>k < G. kern k (ls2 ! k) = Halt"
    by auto
  then have "launch kern init G s2 m0 = Final m2" by (simp add: launch_def)
  then show "\<exists>sched' m'. launch kern init G sched' m0 = Final m'" by blast
qed

section \<open>Verification: sequences of updates of single cells\<close>

text \<open>
  An item is the update of one cell: its subscript, and what the cell becomes (\<open>None\<close>:
  the update faults). The passes under study are sequences of such items.
\<close>

fun seq_items :: "(nat \<times> ('c \<Rightarrow> 'c option)) list \<Rightarrow> 'c list \<Rightarrow> 'c list option" where
  "seq_items [] m = Some m"
| "seq_items (it # its) m =
     (if fst it < length m then
        (case snd it (m ! fst it) of None \<Rightarrow> None | Some c \<Rightarrow> seq_items its (m[fst it := c]))
      else None)"

lemma seq_items_frame:
  "seq_items its m = Some m' \<Longrightarrow>
     length m' = length m \<and> (\<forall>a. a \<notin> fst ` set its \<longrightarrow> m' ! a = m ! a)"
proof (induction its arbitrary: m)
  case Nil
  then show ?case by simp
next
  case (Cons it its)
  from Cons.prems obtain c where a: "fst it < length m" and c: "snd it (m ! fst it) = Some c"
    and r: "seq_items its (m[fst it := c]) = Some m'"
    by (auto split: if_splits option.splits)
  from Cons.IH [OF r] show ?case by (auto simp: nth_list_update)
qed

lemma seq_items_distinct:
  "distinct (map fst its) \<Longrightarrow> seq_items its m = Some m' \<Longrightarrow>
     (\<forall>it \<in> set its. fst it < length m \<and> snd it (m ! fst it) = Some (m' ! fst it))"
proof (induction its arbitrary: m)
  case Nil
  then show ?case by simp
next
  case (Cons it its)
  from Cons.prems(2) obtain c where a: "fst it < length m" and c: "snd it (m ! fst it) = Some c"
    and r: "seq_items its (m[fst it := c]) = Some m'"
    by (auto split: if_splits option.splits)
  from Cons.prems(1) have d: "distinct (map fst its)" and n: "fst it \<notin> fst ` set its" by auto
  from seq_items_frame [OF r] n a have here: "m' ! fst it = c" by simp
  have rest: "\<forall>j \<in> set its. fst j < length m \<and> snd j (m ! fst j) = Some (m' ! fst j)"
  proof
    fix j assume j: "j \<in> set its"
    with Cons.IH [OF d r] have "fst j < length (m[fst it := c])"
      "snd j (m[fst it := c] ! fst j) = Some (m' ! fst j)" by auto
    moreover have "fst j \<noteq> fst it" using j n by (metis imageI)
    ultimately show "fst j < length m \<and> snd j (m ! fst j) = Some (m' ! fst j)" by simp
  qed
  show ?case using a c here rest by simp
qed

lemma seq_items_exists:
  "distinct (map fst its) \<Longrightarrow> \<forall>it \<in> set its. fst it < length m \<and> snd it (m ! fst it) \<noteq> None \<Longrightarrow>
     \<exists>m'. seq_items its m = Some m'"
proof (induction its arbitrary: m)
  case Nil
  then show ?case by simp
next
  case (Cons it its)
  from Cons.prems(2) obtain c where a: "fst it < length m" and c: "snd it (m ! fst it) = Some c"
    by auto
  from Cons.prems(1) have d: "distinct (map fst its)" and n: "fst it \<notin> fst ` set its" by auto
  have "\<forall>j \<in> set its. fst j < length (m[fst it := c]) \<and> snd j (m[fst it := c] ! fst j) \<noteq> None"
  proof
    fix j assume j: "j \<in> set its"
    then have "fst j \<noteq> fst it" using n by (metis imageI)
    with Cons.prems(2) j
    show "fst j < length (m[fst it := c]) \<and> snd j (m[fst it := c] ! fst j) \<noteq> None" by simp
  qed
  from Cons.IH [OF d this] a c show ?case by simp
qed

text \<open>The subscripts \<open>i, i + G, i + 2 G, \<dots>\<close> below \<open>N\<close>: the work of one thread of a grid-stride loop.\<close>

function stride :: "nat \<Rightarrow> nat \<Rightarrow> nat \<Rightarrow> nat list" where
  "stride G N i = (if i < N \<and> 0 < G then i # stride G N (i + G) else [])"
  by pat_completeness auto
termination
  by (relation "measure (\<lambda>(G, N, i). N - i)") auto

declare stride.simps [simp del]

lemma stride_Cons: "i < N \<Longrightarrow> 0 < G \<Longrightarrow> stride G N i = i # stride G N (i + G)"
  by (subst stride.simps) simp

lemma stride_Nil: "\<not> (i < N \<and> 0 < G) \<Longrightarrow> stride G N i = []"
  by (subst stride.simps) simp

lemma set_stride:
  "set (stride G N i) = {j. 0 < G \<and> i \<le> j \<and> j < N \<and> j mod G = i mod G}"
proof (induction G N i rule: stride.induct)
  case (1 G N i)
  show ?case
  proof (cases "i < N \<and> 0 < G")
    case False
    then show ?thesis by (auto simp: stride_Nil)
  next
    case True
    have "{j. 0 < G \<and> i \<le> j \<and> j < N \<and> j mod G = i mod G} =
          insert i {j. 0 < G \<and> i + G \<le> j \<and> j < N \<and> j mod G = (i + G) mod G}"
    proof (intro set_eqI iffI)
      fix j assume "j \<in> {j. 0 < G \<and> i \<le> j \<and> j < N \<and> j mod G = i mod G}"
      then have j: "i \<le> j" "j < N" "j mod G = i mod G" by auto
      show "j \<in> insert i {j. 0 < G \<and> i + G \<le> j \<and> j < N \<and> j mod G = (i + G) mod G}"
      proof (cases "j = i")
        case False
        with j have "i < j" by simp
        have "G dvd j - i" using j(1,3) by (metis mod_eq_dvd_iff_nat)
        then obtain q where q: "j - i = G * q" by (auto simp: dvd_def)
        with \<open>i < j\<close> have "0 < q" by (cases q) auto
        then have "G \<le> G * q" by simp
        with q \<open>i < j\<close> have "i + G \<le> j" by linarith
        with j True show ?thesis by simp
      qed simp
    next
      fix j assume "j \<in> insert i {j. 0 < G \<and> i + G \<le> j \<and> j < N \<and> j mod G = (i + G) mod G}"
      with True show "j \<in> {j. 0 < G \<and> i \<le> j \<and> j < N \<and> j mod G = i mod G}" by auto
    qed
    moreover have "stride G N i = i # stride G N (i + G)" using True by (simp add: stride_Cons)
    ultimately show ?thesis using 1 True by simp
  qed
qed

lemma distinct_stride: "distinct (stride G N i)"
proof (induction G N i rule: stride.induct)
  case (1 G N i)
  show ?case
  proof (cases "i < N \<and> 0 < G")
    case False
    then show ?thesis by (simp add: stride_Nil)
  next
    case True
    have "i \<notin> set (stride G N (i + G))" using True by (simp add: set_stride)
    moreover have "stride G N i = i # stride G N (i + G)" using True by (simp add: stride_Cons)
    ultimately show ?thesis using 1 True by simp
  qed
qed

lemma stride_lt: "j \<in> set (stride G N i) \<Longrightarrow> j < N"
  by (simp add: set_stride)

text \<open>Every subscript below \<open>N\<close> is the work of exactly one thread.\<close>

lemma stride_cover:
  "0 < G \<Longrightarrow> j < N \<Longrightarrow> j mod G < G \<and> j \<in> set (stride G N (j mod G))"
  by (simp add: set_stride)

lemma stride_owner:
  "k < G \<Longrightarrow> j \<in> set (stride G N k) \<Longrightarrow> j mod G = k"
  by (simp add: set_stride)

section \<open>Verification: the coarsening cycles\<close>

lemma removal_cycles_props:
  "removal_cycles candidates remove cap s = (s', n) \<Longrightarrow>
     n \<le> cap \<and>
     (\<forall>k. Suc k < n \<longrightarrow> candidates ((remove ^^ k) s) \<noteq> 0) \<and>
     (n < cap \<longrightarrow> 0 < n \<and> candidates ((remove ^^ (n - 1)) s) = 0 \<and> s' = (remove ^^ (n - 1)) s) \<and>
     (n = cap \<and> (cap = 0 \<or> candidates ((remove ^^ (n - 1)) s) \<noteq> 0) \<longrightarrow> s' = (remove ^^ n) s)"
proof (induction cap arbitrary: s s' n)
  case 0
  then show ?case by simp
next
  case (Suc cap)
  show ?case
  proof (cases "candidates s = 0")
    case True
    with Suc.prems show ?thesis by auto
  next
    case False
    obtain s1 n1 where r: "removal_cycles candidates remove cap (remove s) = (s1, n1)"
      by (cases "removal_cycles candidates remove cap (remove s)")
    with Suc.prems False have e: "s' = s1" "n = Suc n1" by simp_all
    note ih = Suc.IH [OF r]
    have a: "n \<le> Suc cap" using ih e by simp
    have b: "\<forall>k. Suc k < n \<longrightarrow> candidates ((remove ^^ k) s) \<noteq> 0"
    proof (intro allI impI)
      fix k assume k: "Suc k < n"
      show "candidates ((remove ^^ k) s) \<noteq> 0"
      proof (cases k)
        case 0
        then show ?thesis using False by simp
      next
        case (Suc j)
        then have "Suc j < n1" using k e by simp
        with ih have "candidates ((remove ^^ j) (remove s)) \<noteq> 0" by blast
        then show ?thesis using Suc by (simp add: funpow_swap1)
      qed
    qed
    have c: "n < Suc cap \<longrightarrow> 0 < n \<and> candidates ((remove ^^ (n - 1)) s) = 0 \<and>
        s' = (remove ^^ (n - 1)) s"
    proof
      assume "n < Suc cap"
      then have lt: "n1 < cap" using e by simp
      with ih have p: "0 < n1" "candidates ((remove ^^ (n1 - 1)) (remove s)) = 0"
        "s1 = (remove ^^ (n1 - 1)) (remove s)" by blast+
      from p(1) obtain j where j: "n1 = Suc j" by (cases n1) auto
      show "0 < n \<and> candidates ((remove ^^ (n - 1)) s) = 0 \<and> s' = (remove ^^ (n - 1)) s"
        using p e j by (simp add: funpow_swap1)
    qed
    have d: "n = Suc cap \<and> (Suc cap = 0 \<or> candidates ((remove ^^ (n - 1)) s) \<noteq> 0) \<longrightarrow>
        s' = (remove ^^ n) s"
    proof
      assume h: "n = Suc cap \<and> (Suc cap = 0 \<or> candidates ((remove ^^ (n - 1)) s) \<noteq> 0)"
      then have n1: "n1 = cap" using e by simp
      show "s' = (remove ^^ n) s"
      proof (cases cap)
        case 0
        with n1 r e show ?thesis by simp
      next
        case (Suc j)
        with h e n1 have "candidates ((remove ^^ (n1 - 1)) (remove s)) \<noteq> 0"
          by (simp add: funpow_swap1)
        with ih n1 have "s1 = (remove ^^ n1) (remove s)" by blast
        then show ?thesis using e by (simp add: funpow_swap1)
      qed
    qed
    from a b c d show ?thesis by blast
  qed
qed

text \<open>
  Claim C7. For a cap \<open>maxCycle \<ge> 0\<close>, \<^verbatim>\<open>RemoveVertices\<close> runs at most \<open>maxCycle\<close> cycles;
  every cycle before the last one found candidates, and when fewer cycles than the cap
  were run, the last one found none: the loop stops at the first cycle without removal
  candidates.
\<close>

theorem RemoveVertices_cycle_cap:
  assumes "0 \<le> maxCycle" and "RemoveVertices candidates remove maxCycle s = (s', n)"
  shows "int n \<le> maxCycle \<and>
         (\<forall>k. Suc k < n \<longrightarrow> candidates ((remove ^^ k) s) \<noteq> 0) \<and>
         (int n < maxCycle \<longrightarrow> 0 < n \<and> candidates ((remove ^^ (n - 1)) s) = 0)"
proof -
  from assms(2) have r: "removal_cycles candidates remove (nat maxCycle) s = (s', n)"
    by (simp add: RemoveVertices_def)
  note p = removal_cycles_props [OF r]
  from p have a: "int n \<le> maxCycle" using assms(1) by linarith
  from p have b: "\<forall>k. Suc k < n \<longrightarrow> candidates ((remove ^^ k) s) \<noteq> 0" by blast
  have c: "int n < maxCycle \<longrightarrow> 0 < n \<and> candidates ((remove ^^ (n - 1)) s) = 0"
  proof
    assume "int n < maxCycle"
    then have "n < nat maxCycle" by linarith
    with p show "0 < n \<and> candidates ((remove ^^ (n - 1)) s) = 0" by blast
  qed
  from a b c show ?thesis by blast
qed

theorem RemoveVertices_cycle_cap_witness:
  "(0 :: int) \<le> 5 \<and> RemoveVertices (\<lambda>s :: nat. s) (\<lambda>s. s - 1) 5 2 = (0, 3) \<and> int 3 \<le> 5 \<and>
   RemoveVertices (\<lambda>s :: nat. s) (\<lambda>s. s - 1) 2 7 = (5, 2)"
proof -
  have h: "(0 :: int) \<le> 5" by simp
  have r: "RemoveVertices (\<lambda>s :: nat. s) (\<lambda>s. s - 1) 5 2 = (0, 3)"
    by (simp add: RemoveVertices_def eval_nat_numeral)
  have r2: "RemoveVertices (\<lambda>s :: nat. s) (\<lambda>s. s - 1) 2 7 = (5, 2)"
    by (simp add: RemoveVertices_def eval_nat_numeral)
  from RemoveVertices_cycle_cap [OF h r] have "int 3 \<le> 5" by blast
  with h r r2 show ?thesis by blast
qed

text \<open>
  A kernel whose threads each carry out a list of items. When a thread run alone does
  what \<open>seq_items\<close> does on its list, the items of all threads lie at different
  subscripts, and the sequential pass over all items returns, then the launch cannot
  fault, can be run to its end, and whenever it is run to its end the array is the one
  that the sequential pass leaves.
\<close>

lemma grid_launch_seq:
  fixes its :: "'w \<Rightarrow> nat \<times> ('c \<Rightarrow> 'c option)" and work :: "nat \<Rightarrow> 'w list"
  assumes host: "seq_items (map its ws) m0 = Some m'"
    and dist: "distinct (map (fst \<circ> its) ws)"
    and cover: "set ws = (\<Union>k \<in> {..<G}. set (work k))"
    and dwork: "\<forall>k < G. distinct (work k)"
    and disj: "\<forall>j < G. \<forall>k < G. j \<noteq> k \<longrightarrow> set (work j) \<inter> set (work k) = {}"
    and solo: "\<And>k M. k < G \<Longrightarrow> seq_items (map its (work k)) m0 = Some M \<Longrightarrow>
        solo (fst ` its ` set (work k)) (kern k) (init k) m0 M"
  shows "launch kern init G sched m0 \<noteq> Fault"
    and "launch kern init G sched m0 = Final m \<Longrightarrow> m = m'"
    and "\<exists>sched'. launch kern init G sched' m0 = Final m'"
proof -
  have d0: "distinct (map fst (map its ws))" using dist by simp
  note hostp = seq_items_distinct [OF d0 host]
  have hp: "\<And>w. w \<in> set ws \<Longrightarrow> fst (its w) < length m0 \<and>
      snd (its w) (m0 ! fst (its w)) = Some (m' ! fst (its w))"
    using hostp by simp
  have inj: "inj_on (fst \<circ> its) (set ws)" using dist by (simp add: distinct_map)
  have sub: "\<And>k. k < G \<Longrightarrow> set (work k) \<subseteq> set ws" using cover by auto
  have dk: "\<And>k. k < G \<Longrightarrow> distinct (map fst (map its (work k)))"
  proof -
    fix k assume k: "k < G"
    have "inj_on (fst \<circ> its) (set (work k))" using inj sub [OF k] by (rule inj_on_subset)
    with dwork k show "distinct (map fst (map its (work k)))" by (simp add: distinct_map)
  qed
  have ex: "\<And>k. k < G \<Longrightarrow> \<exists>M. seq_items (map its (work k)) m0 = Some M"
  proof -
    fix k assume k: "k < G"
    have "\<forall>it \<in> set (map its (work k)). fst it < length m0 \<and> snd it (m0 ! fst it) \<noteq> None"
      using hp sub [OF k] by auto
    with dk [OF k] show "\<exists>M. seq_items (map its (work k)) m0 = Some M"
      by (rule seq_items_exists)
  qed
  define M where "M k = the (seq_items (map its (work k)) m0)" for k
  define F where "F k = fst ` its ` set (work k)" for k
  have Mk: "\<And>k. k < G \<Longrightarrow> seq_items (map its (work k)) m0 = Some (M k)"
    using ex by (auto simp: M_def)
  have solos: "\<forall>k < G. solo (F k) (kern k) (init k) m0 (M k)"
    using solo Mk by (simp add: F_def)
  have fdisj: "\<forall>j < G. \<forall>k < G. j \<noteq> k \<longrightarrow> F j \<inter> F k = {}"
  proof (intro allI impI)
    fix j k assume j: "j < G" and k: "k < G" and ne: "j \<noteq> k"
    show "F j \<inter> F k = {}"
    proof (rule ccontr)
      assume "F j \<inter> F k \<noteq> {}"
      then obtain a where "a \<in> F j" "a \<in> F k" by auto
      then obtain u v where u: "u \<in> set (work j)" "a = fst (its u)"
        and v: "v \<in> set (work k)" "a = fst (its v)" by (auto simp: F_def)
      have "u \<in> set ws" "v \<in> set ws" using u v sub j k by auto
      with inj u(2) v(2) have "u = v" by (auto simp: inj_on_def)
      with u(1) v(1) disj j k ne show False by auto
    qed
  qed
  note rf = race_free_launch [OF solos fdisj]
  show "launch kern init G sched m0 \<noteq> Fault" by (rule rf(1))
  have fin: "m = m'" if f: "launch kern init G s m0 = Final m" for s m
  proof -
    from rf(2) [OF f] have len: "length m = length m0"
      and inF: "\<And>k a. k < G \<Longrightarrow> a \<in> F k \<Longrightarrow> m ! a = M k ! a"
      and outF: "\<And>a. (\<forall>k < G. a \<notin> F k) \<Longrightarrow> m ! a = m0 ! a" by auto
    from seq_items_frame [OF host] have len': "length m' = length m0"
      and out': "\<And>a. a \<notin> fst ` set (map its ws) \<Longrightarrow> m' ! a = m0 ! a" by auto
    show "m = m'"
    proof (rule nth_equalityI)
      show "length m = length m'" using len len' by simp
    next
      fix a assume "a < length m"
      show "m ! a = m' ! a"
      proof (cases "\<exists>k < G. a \<in> F k")
        case True
        then obtain k w where k: "k < G" and w: "w \<in> set (work k)" "a = fst (its w)"
          by (auto simp: F_def)
        have "its w \<in> set (map its (work k))" using w by simp
        with seq_items_distinct [OF dk [OF k] Mk [OF k]]
        have "snd (its w) (m0 ! fst (its w)) = Some (M k ! fst (its w))" by blast
        moreover have "snd (its w) (m0 ! fst (its w)) = Some (m' ! fst (its w))"
          using hp w(1) sub [OF k] by auto
        ultimately have "M k ! a = m' ! a" using w(2) by simp
        moreover have "m ! a = M k ! a" using inF k w by (auto simp: F_def)
        ultimately show ?thesis by simp
      next
        case False
        then have n: "\<forall>k < G. a \<notin> F k" by blast
        have "a \<notin> fst ` set (map its ws)"
        proof
          assume "a \<in> fst ` set (map its ws)"
          then obtain w where "w \<in> set ws" "a = fst (its w)" by auto
          with cover obtain k where "k < G" "w \<in> set (work k)" by auto
          with \<open>a = fst (its w)\<close> n show False by (auto simp: F_def)
        qed
        with out' outF [OF n] show ?thesis by simp
      qed
    qed
  qed
  from fin show "launch kern init G sched m0 = Final m \<Longrightarrow> m = m'" .
  from rf(3) obtain s2 m2 where "launch kern init G s2 m0 = Final m2" by blast
  with fin [OF this] show "\<exists>sched'. launch kern init G sched' m0 = Final m'" by blast
qed

section \<open>Verification: the edge repair kernels\<close>

text \<open>Repairing edge \<open>e\<close> is one item: cell \<open>e\<close> of \<^verbatim>\<open>pEt\<close> becomes its repaired entry.\<close>

definition edge_item :: "int list \<Rightarrow> int3 list \<Rightarrow> int \<Rightarrow> nat \<times> (int2 \<Rightarrow> int2 option)" where
  "edge_item pTsub pTe e = (nat e, repair_entry e pTsub pTe)"

lemma SingleEdgeRepair_item:
  "0 \<le> e \<Longrightarrow> SingleEdgeRepair e pTsub pTe m = seq_items [edge_item pTsub pTe e] m"
  by (auto simp: SingleEdgeRepair_eq edge_item_def rd_def split: option.splits)

lemma SingleEdgeRepair_negative: "e < 0 \<Longrightarrow> SingleEdgeRepair e pTsub pTe m = None"
  by (simp add: SingleEdgeRepair_eq rd_def)

text \<open>
  Both kernels and both host loops are instances of one scheme: \<open>fetch i\<close> is the edge that
  iteration \<open>i\<close> repairs (\<open>i\<close> itself, or \<^verbatim>\<open>pEnC[i]\<close>).
\<close>

definition er_kernel ::
  "(int \<Rightarrow> int option) \<Rightarrow> nat \<Rightarrow> int \<Rightarrow> int list \<Rightarrow> int3 list \<Rightarrow> er_local \<Rightarrow>
     (er_local, int2) action" where
  "er_kernel fetch G N pTsub pTe l =
     (case er_pc l of
        ER_while \<Rightarrow>
          if er_i l < N then
            (case fetch (er_i l) of
               None \<Rightarrow> Crash
             | Some e \<Rightarrow> Tau (l\<lparr>er_e := e, er_pc := ER_load_x\<rparr>))
          else Halt
      | ER_incr \<Rightarrow> Tau (l\<lparr>er_i := to_int32 (er_i l + int G), er_pc := ER_while\<rparr>)
      | _ \<Rightarrow> SingleEdgeRepair_thread pTsub pTe l)"

definition er_host ::
  "(int \<Rightarrow> int option) \<Rightarrow> int list \<Rightarrow> int3 list \<Rightarrow> int \<Rightarrow> int \<Rightarrow> int2 list \<Rightarrow> int2 list option" where
  "er_host fetch pTsub pTe i N m =
     for_loop (\<lambda>i m. case fetch i of None \<Rightarrow> None | Some e \<Rightarrow> SingleEdgeRepair e pTsub pTe m) i N m"

lemma devEdgeRepair_scheme: "devEdgeRepair G N pTsub pTe = er_kernel Some G N pTsub pTe"
  by (rule ext) (simp add: devEdgeRepair_def er_kernel_def split: er_pc.splits)

lemma devEdgeRepairLimit_scheme:
  "devEdgeRepairLimit G N pEnC pTsub pTe = er_kernel (rd pEnC) G N pTsub pTe"
  by (rule ext) (simp add: devEdgeRepairLimit_def er_kernel_def split: er_pc.splits)

lemma host_all_scheme:
  "for_loop (\<lambda>i. SingleEdgeRepair i pTsub pTe) i N m = er_host Some pTsub pTe i N m"
  by (simp add: er_host_def)

lemma host_limit_scheme:
  "for_loop (\<lambda>i pEt. case rd pEnC i of None \<Rightarrow> None | Some e \<Rightarrow> SingleEdgeRepair e pTsub pTe pEt)
     i N m = er_host (rd pEnC) pTsub pTe i N m"
  by (simp add: er_host_def)

text \<open>The items of the iterations \<open>js\<close>.\<close>

definition er_items ::
  "(int \<Rightarrow> int option) \<Rightarrow> int list \<Rightarrow> int3 list \<Rightarrow> nat \<Rightarrow> nat \<times> (int2 \<Rightarrow> int2 option)" where
  "er_items fetch pTsub pTe j = edge_item pTsub pTe (the (fetch (int j)))"

lemma er_host_Some:
  "er_host fetch pTsub pTe i N m = Some m' \<Longrightarrow> 0 \<le> i \<Longrightarrow>
     (\<forall>j. nat i \<le> j \<and> j < nat N \<longrightarrow> (\<exists>e. fetch (int j) = Some e \<and> 0 \<le> e)) \<and>
     seq_items (map (er_items fetch pTsub pTe) [nat i..<nat N]) m = Some m'"
proof (induction "nat (N - i)" arbitrary: i m rule: less_induct)
  case less
  let ?body = "\<lambda>i m. case fetch i of None \<Rightarrow> None | Some e \<Rightarrow> SingleEdgeRepair e pTsub pTe m"
  note prems = less.prems [unfolded er_host_def]
  show ?case
  proof (cases "i < N")
    case False
    with prems have "m' = m" by (simp add: for_loop.simps)
    moreover have "[nat i..<nat N] = []" using False by simp
    ultimately show ?thesis using False by auto
  next
    case True
    from prems(1) True obtain m1 where b: "?body i m = Some m1"
      and r: "for_loop ?body (i + 1) N m1 = Some m'"
      by (subst (asm) for_loop.simps) (auto split: option.splits)
    have r': "er_host fetch pTsub pTe (i + 1) N m1 = Some m'" using r by (simp add: er_host_def)
    have dec: "nat (N - (i + 1)) < nat (N - i)" using True by simp
    from b obtain e where e: "fetch i = Some e" and s: "SingleEdgeRepair e pTsub pTe m = Some m1"
      by (auto split: option.splits)
    have e0: "0 \<le> e" using s SingleEdgeRepair_negative [of e pTsub pTe m] by (cases "0 \<le> e") auto
    have ih: "(\<forall>j. nat (i + 1) \<le> j \<and> j < nat N \<longrightarrow> (\<exists>e. fetch (int j) = Some e \<and> 0 \<le> e)) \<and>
      seq_items (map (er_items fetch pTsub pTe) [nat (i + 1)..<nat N]) m1 = Some m'"
      using less.hyps [OF dec r'] prems(2) by simp
    have upt: "[nat i..<nat N] = nat i # [nat (i + 1)..<nat N]"
      using True prems(2) by (simp add: upt_conv_Cons nat_add_distrib)
    have it: "er_items fetch pTsub pTe (nat i) = edge_item pTsub pTe e"
      using e prems(2) by (simp add: er_items_def)
    have step: "seq_items [edge_item pTsub pTe e] m = Some m1"
      using s e0 by (simp add: SingleEdgeRepair_item)
    have "seq_items (map (er_items fetch pTsub pTe) [nat i..<nat N]) m = Some m'"
      using step ih by (simp add: upt it split: if_splits option.splits)
    moreover have "\<forall>j. nat i \<le> j \<and> j < nat N \<longrightarrow> (\<exists>e. fetch (int j) = Some e \<and> 0 \<le> e)"
    proof (intro allI impI)
      fix j assume j: "nat i \<le> j \<and> j < nat N"
      show "\<exists>e. fetch (int j) = Some e \<and> 0 \<le> e"
      proof (cases "j = nat i")
        case True
        then show ?thesis using e e0 prems(2) by simp
      next
        case False
        with j have "nat (i + 1) \<le> j" using prems(2) by (simp add: nat_add_distrib)
        with ih j show ?thesis by blast
      qed
    qed
    ultimately show ?thesis by blast
  qed
qed


text \<open>The statements of \<^verbatim>\<open>SingleEdgeRepair\<close> in a thread, one by one.\<close>

lemma thread_if1:
  "er_pc l = ER_if1 \<Longrightarrow> repair_slot (er_e l) pTsub pTe (er_t1 l) = Some t \<Longrightarrow>
     SingleEdgeRepair_thread pTsub pTe l = Tau (l\<lparr>er_t1 := t, er_pc := ER_if2\<rparr>)"
  by (cases l) (auto simp: SingleEdgeRepair_thread_def repair_slot_def split: option.splits if_splits)

lemma thread_if2:
  "er_pc l = ER_if2 \<Longrightarrow> repair_slot (er_e l) pTsub pTe (er_t2 l) = Some t \<Longrightarrow>
     SingleEdgeRepair_thread pTsub pTe l = Tau (l\<lparr>er_t2 := t, er_pc := ER_store_x\<rparr>)"
  by (cases l) (auto simp: SingleEdgeRepair_thread_def repair_slot_def split: option.splits if_splits)

lemma er_kernel_body:
  "er_pc l \<noteq> ER_while \<Longrightarrow> er_pc l \<noteq> ER_incr \<Longrightarrow>
     er_kernel fetch G N pTsub pTe l = SingleEdgeRepair_thread pTsub pTe l"
  by (cases "er_pc l") (simp_all add: er_kernel_def)

lemma er_body_solo:
  fixes F fetch G N pTsub pTe
  defines "p \<equiv> er_kernel fetch G N pTsub pTe"
  assumes l: "er_pc l = ER_load_x" "er_e l = e"
    and e: "0 \<le> e" "nat e < length m" "nat e \<in> F"
    and re: "repair_entry e pTsub pTe (m ! nat e) = Some et'"
    and cont: "\<And>l'. er_pc l' = ER_incr \<Longrightarrow> er_i l' = er_i l \<Longrightarrow> solo F p l' (m[nat e := et']) m'"
  shows "solo F p l m m'"
proof -
  let ?et = "m ! nat e"
  from re obtain t1 t2 where t1: "repair_slot e pTsub pTe (i2x ?et) = Some t1"
    and t2: "repair_slot e pTsub pTe (i2y ?et) = Some t2"
    and et': "et' = ?et\<lparr>i2x := t1, i2y := t2\<rparr>"
    by (auto simp: repair_entry_def split: option.splits)
  define l1 where "l1 = l\<lparr>er_t1 := i2x ?et, er_pc := ER_load_y\<rparr>"
  define l2 where "l2 = l1\<lparr>er_t2 := i2y ?et, er_pc := ER_if1\<rparr>"
  define l3 where "l3 = l2\<lparr>er_t1 := t1, er_pc := ER_if2\<rparr>"
  define l4 where "l4 = l3\<lparr>er_t2 := t2, er_pc := ER_store_x\<rparr>"
  define l5 where "l5 = l4\<lparr>er_pc := ER_store_y\<rparr>"
  define l6 where "l6 = l5\<lparr>er_pc := ER_incr\<rparr>"
  define mx where "mx = m[nat e := ?et\<lparr>i2x := t1\<rparr>]"
  have my: "mx[nat e := (mx ! nat e)\<lparr>i2y := t2\<rparr>] = m[nat e := et']"
    using e by (simp add: mx_def et')
  have s6: "solo F p l6 (m[nat e := et']) m'"
    by (rule cont) (simp_all add: l6_def l5_def l4_def l3_def l2_def l1_def)
  have p5: "p l5 = Access (nat e) (\<lambda>c. (l5\<lparr>er_pc := ER_incr\<rparr>, c\<lparr>i2y := er_t2 l5\<rparr>))"
    using l e by (simp add: p_def er_kernel_body SingleEdgeRepair_thread_def
        l5_def l4_def l3_def l2_def l1_def)
  have s5: "solo F p l5 mx m'"
  proof (rule solo_Access [where p = p and l = l5, OF p5 e(3)])
    show "nat e < length mx" using e by (simp add: mx_def)
    show "(l5\<lparr>er_pc := ER_incr\<rparr>, (mx ! nat e)\<lparr>i2y := er_t2 l5\<rparr>) = (l6, (mx ! nat e)\<lparr>i2y := t2\<rparr>)"
      by (simp add: l6_def l5_def l4_def)
    show "solo F p l6 (mx[nat e := (mx ! nat e)\<lparr>i2y := t2\<rparr>]) m'" using s6 by (simp add: my)
  qed
  have p4: "p l4 = Access (nat e) (\<lambda>c. (l4\<lparr>er_pc := ER_store_y\<rparr>, c\<lparr>i2x := er_t1 l4\<rparr>))"
    using l e by (simp add: p_def er_kernel_body SingleEdgeRepair_thread_def
        l4_def l3_def l2_def l1_def)
  have s4: "solo F p l4 m m'"
  proof (rule solo_Access [where p = p and l = l4, OF p4 e(3) e(2)])
    show "(l4\<lparr>er_pc := ER_store_y\<rparr>, ?et\<lparr>i2x := er_t1 l4\<rparr>) = (l5, ?et\<lparr>i2x := t1\<rparr>)"
      by (simp add: l5_def l4_def l3_def)
    show "solo F p l5 (m[nat e := ?et\<lparr>i2x := t1\<rparr>]) m'" using s5 by (simp add: mx_def)
  qed
  have p3: "p l3 = Tau l4"
    using l t2 by (simp add: p_def er_kernel_body thread_if2 l4_def l3_def l2_def l1_def)
  have s3: "solo F p l3 m m'" by (rule solo_Tau [where p = p and l = l3, OF p3 s4])
  have p2: "p l2 = Tau l3"
    using l t1 by (simp add: p_def er_kernel_body thread_if1 l3_def l2_def l1_def)
  have s2: "solo F p l2 m m'" by (rule solo_Tau [where p = p and l = l2, OF p2 s3])
  have p1: "p l1 = Access (nat e) (\<lambda>c. (l1\<lparr>er_t2 := i2y c, er_pc := ER_if1\<rparr>, c))"
    using l e by (simp add: p_def er_kernel_body SingleEdgeRepair_thread_def l1_def)
  have s1: "solo F p l1 m m'"
  proof (rule solo_Access [where p = p and l = l1, OF p1 e(3) e(2)])
    show "(l1\<lparr>er_t2 := i2y ?et, er_pc := ER_if1\<rparr>, ?et) = (l2, ?et)" by (simp add: l2_def)
    show "solo F p l2 (m[nat e := ?et]) m'" using s2 by simp
  qed
  have p0: "p l = Access (nat e) (\<lambda>c. (l\<lparr>er_t1 := i2x c, er_pc := ER_load_y\<rparr>, c))"
    using l e by (simp add: p_def er_kernel_body SingleEdgeRepair_thread_def)
  show ?thesis
  proof (rule solo_Access [where p = p and l = l, OF p0 e(3) e(2)])
    show "(l\<lparr>er_t1 := i2x ?et, er_pc := ER_load_y\<rparr>, ?et) = (l1, ?et)" by (simp add: l1_def)
    show "solo F p l1 (m[nat e := ?et]) m'" using s1 by simp
  qed
qed


lemma to_int32_id: "0 \<le> k \<Longrightarrow> k < 2 ^ 31 \<Longrightarrow> to_int32 k = k"
  by (simp add: to_int32_def Let_def)

text \<open>A thread of either kernel, run alone, carries out the items of its iterations.\<close>

lemma er_thread_solo:
  assumes G: "0 < G" and bound: "N + int G \<le> 2 ^ 31"
  shows "\<forall>j \<in> set (stride G (nat N) i). \<exists>e. fetch (int j) = Some e \<and> 0 \<le> e \<Longrightarrow>
    seq_items (map (er_items fetch pTsub pTe) (stride G (nat N) i)) m = Some m' \<Longrightarrow>
    fst ` er_items fetch pTsub pTe ` set (stride G (nat N) i) \<subseteq> F \<Longrightarrow>
    er_pc l = ER_while \<Longrightarrow> er_i l = int i \<Longrightarrow>
    solo F (er_kernel fetch G N pTsub pTe) l m m'"
proof (induction "nat N - i" arbitrary: i l m rule: less_induct)
  case less
  let ?p = "er_kernel fetch G N pTsub pTe"
  show ?case
  proof (cases "i < nat N")
    case False
    then have "stride G (nat N) i = []" by (simp add: stride_Nil)
    with less.prems(2) have "m' = m" by simp
    moreover have "\<not> int i < N" using False by linarith
    then have "?p l = Halt" using less.prems(4,5) by (simp add: er_kernel_def)
    ultimately show ?thesis by (simp add: solo_Halt)
  next
    case True
    then have st: "stride G (nat N) i = i # stride G (nat N) (i + G)" using G by (simp add: stride_Cons)
    from less.prems(1) st obtain e where e: "fetch (int i) = Some e" "0 \<le> e" by auto
    have it: "er_items fetch pTsub pTe i = (nat e, repair_entry e pTsub pTe)"
      using e by (simp add: er_items_def edge_item_def)
    from less.prems(2) obtain et' where len: "nat e < length m"
      and re: "repair_entry e pTsub pTe (m ! nat e) = Some et'"
      and rest: "seq_items (map (er_items fetch pTsub pTe) (stride G (nat N) (i + G)))
          (m[nat e := et']) = Some m'"
      by (auto simp: st it split: if_splits option.splits)
    have inF: "nat e \<in> F" using less.prems(3) st it by auto
    define l0 where "l0 = l\<lparr>er_e := e, er_pc := ER_load_x\<rparr>"
    have iN: "int i < N" using True by linarith
    have p: "?p l = Tau l0"
      using iN less.prems(4,5) e by (simp add: er_kernel_def l0_def)
    have body: "solo F ?p l0 m m'"
    proof (rule er_body_solo [where e = e and et' = et'])
      show "er_pc l0 = ER_load_x" "er_e l0 = e" by (simp_all add: l0_def)
      show "0 \<le> e" "nat e < length m" "nat e \<in> F" by (fact e len inF)+
      show "repair_entry e pTsub pTe (m ! nat e) = Some et'" by (fact re)
    next
      fix l' :: er_local assume l': "er_pc l' = ER_incr" "er_i l' = er_i l0"
      define l1 where "l1 = l'\<lparr>er_i := int (i + G), er_pc := ER_while\<rparr>"
      have "int i + int G < 2 ^ 31" using iN bound by linarith
      then have "to_int32 (er_i l' + int G) = int (i + G)"
        using l' less.prems(5) by (simp add: l0_def to_int32_id)
      then have p': "?p l' = Tau l1" using l' by (simp add: er_kernel_def l1_def)
      have "solo F ?p l1 (m[nat e := et']) m'"
      proof (rule less.hyps [where i = "i + G"])
        show "nat N - (i + G) < nat N - i" using True G by simp
        show "\<forall>j \<in> set (stride G (nat N) (i + G)). \<exists>e. fetch (int j) = Some e \<and> 0 \<le> e"
          using less.prems(1) st by simp
        show "seq_items (map (er_items fetch pTsub pTe) (stride G (nat N) (i + G)))
            (m[nat e := et']) = Some m'" by (fact rest)
        show "fst ` er_items fetch pTsub pTe ` set (stride G (nat N) (i + G)) \<subseteq> F"
          using less.prems(3) st by auto
        show "er_pc l1 = ER_while" "er_i l1 = int (i + G)" by (simp_all add: l1_def)
      qed
      with p' show "solo F ?p l' (m[nat e := et']) m'"
        by (rule solo_Tau [where p = ?p and l = l'])
    qed
    from p body show ?thesis by (rule solo_Tau [where p = ?p and l = l])
  qed
qed


lemma er_host_eq:
  "0 \<le> i \<Longrightarrow> \<forall>j. nat i \<le> j \<and> j < nat N \<longrightarrow> (\<exists>e. fetch (int j) = Some e \<and> 0 \<le> e) \<Longrightarrow>
     er_host fetch pTsub pTe i N m = seq_items (map (er_items fetch pTsub pTe) [nat i..<nat N]) m"
proof (induction "nat (N - i)" arbitrary: i m rule: less_induct)
  case less
  let ?body = "\<lambda>i m. case fetch i of None \<Rightarrow> None | Some e \<Rightarrow> SingleEdgeRepair e pTsub pTe m"
  show ?case
  proof (cases "i < N")
    case False
    then have e: "[nat i..<nat N] = []" by simp
    have h: "er_host fetch pTsub pTe i N m = Some m"
      using False unfolding er_host_def by (subst for_loop.simps) simp
    show ?thesis unfolding e h by simp
  next
    case True
    have "nat i \<le> nat i \<and> nat i < nat N" using True less.prems(1) by simp
    with less.prems(2) obtain e where e: "fetch (int (nat i)) = Some e" "0 \<le> e" by blast
    then have fe: "fetch i = Some e" using less.prems(1) by simp
    have upt: "[nat i..<nat N] = nat i # [nat (i + 1)..<nat N]"
      using True less.prems(1) by (simp add: upt_conv_Cons nat_add_distrib)
    have it: "er_items fetch pTsub pTe (nat i) = edge_item pTsub pTe e"
      using fe less.prems(1) by (simp add: er_items_def)
    have dec: "nat (N - (i + 1)) < nat (N - i)" using True by simp
    have all: "\<forall>j. nat (i + 1) \<le> j \<and> j < nat N \<longrightarrow> (\<exists>e. fetch (int j) = Some e \<and> 0 \<le> e)"
      using less.prems by (simp add: nat_add_distrib)
    have i1: "0 \<le> i + 1" using less.prems(1) by simp
    have ih: "\<And>m1. er_host fetch pTsub pTe (i + 1) N m1 =
        seq_items (map (er_items fetch pTsub pTe) [nat (i + 1)..<nat N]) m1"
      by (rule less.hyps [OF dec i1 all])
    have "er_host fetch pTsub pTe i N m =
        (case SingleEdgeRepair e pTsub pTe m of None \<Rightarrow> None
         | Some m1 \<Rightarrow> er_host fetch pTsub pTe (i + 1) N m1)"
      using True fe unfolding er_host_def by (subst for_loop.simps) simp
    also have "\<dots> = seq_items (map (er_items fetch pTsub pTe) [nat i..<nat N]) m"
      using e(2) by (simp add: upt it ih SingleEdgeRepair_item split: option.splits)
    finally show ?thesis .
  qed
qed

lemma stride_partition:
  assumes "0 < G"
  shows "set [0..<n] = (\<Union>k \<in> {..<G}. set (stride G n k))"
    and "\<forall>j < G. \<forall>k < G. j \<noteq> k \<longrightarrow> set (stride G n j) \<inter> set (stride G n k) = {}"
proof -
  show "set [0..<n] = (\<Union>k \<in> {..<G}. set (stride G n k))"
  proof (intro set_eqI iffI)
    fix j assume "j \<in> set [0..<n]"
    then have "j < n" by simp
    with stride_cover [OF assms this] show "j \<in> (\<Union>k \<in> {..<G}. set (stride G n k))" by blast
  next
    fix j assume "j \<in> (\<Union>k \<in> {..<G}. set (stride G n k))"
    then show "j \<in> set [0..<n]" by (auto simp: set_stride)
  qed
  show "\<forall>j < G. \<forall>k < G. j \<noteq> k \<longrightarrow> set (stride G n j) \<inter> set (stride G n k) = {}"
  proof (intro allI impI)
    fix j k assume "j < G" "k < G" "j \<noteq> k"
    show "set (stride G n j) \<inter> set (stride G n k) = {}"
    proof (rule ccontr)
      assume "set (stride G n j) \<inter> set (stride G n k) \<noteq> {}"
      then obtain a where aj: "a \<in> set (stride G n j)" and ak: "a \<in> set (stride G n k)"
        by blast
      from stride_owner [OF \<open>j < G\<close> aj] stride_owner [OF \<open>k < G\<close> ak] \<open>j \<noteq> k\<close>
      show False by simp
    qed
  qed
qed

text \<open>
  Device against host, for either scheme: when the host loop returns and repairs no edge
  twice, every launch of the kernel that is run to its end leaves the same array.
\<close>

lemma er_device_host:
  assumes G: "0 < G" "int G \<le> 2 ^ 31" and bound: "N + int G \<le> 2 ^ 31"
    and host: "er_host fetch pTsub pTe 0 N m0 = Some m'"
    and dist: "distinct (map (\<lambda>j. the (fetch (int j))) [0..<nat N])"
  shows "launch (\<lambda>tid. er_kernel fetch G N pTsub pTe) er_init G sched m0 \<noteq> Fault"
    and "launch (\<lambda>tid. er_kernel fetch G N pTsub pTe) er_init G sched m0 = Final m \<Longrightarrow> m = m'"
    and "\<exists>sched'. launch (\<lambda>tid. er_kernel fetch G N pTsub pTe) er_init G sched' m0 = Final m'"
proof -
  let ?its = "er_items fetch pTsub pTe"
  from er_host_Some [OF host] have fe: "\<And>j. j < nat N \<Longrightarrow> \<exists>e. fetch (int j) = Some e \<and> 0 \<le> e"
    and seq: "seq_items (map ?its [0..<nat N]) m0 = Some m'" by auto
  have d: "distinct (map (fst \<circ> ?its) [0..<nat N])"
  proof -
    have "inj_on (\<lambda>j. the (fetch (int j))) (set [0..<nat N])"
      using dist by (simp add: distinct_map)
    then have "inj_on (fst \<circ> ?its) (set [0..<nat N])"
      unfolding inj_on_def
    proof (intro ballI impI)
      fix x y assume inj: "\<forall>x\<in>set [0..<nat N]. \<forall>y\<in>set [0..<nat N].
          the (fetch (int x)) = the (fetch (int y)) \<longrightarrow> x = y"
        and x: "x \<in> set [0..<nat N]" and y: "y \<in> set [0..<nat N]"
        and eq: "(fst \<circ> ?its) x = (fst \<circ> ?its) y"
      from x y fe have "0 \<le> the (fetch (int x))" "0 \<le> the (fetch (int y))" by fastforce+
      with eq have "the (fetch (int x)) = the (fetch (int y))"
        by (simp add: er_items_def edge_item_def)
      with inj x y show "x = y" by blast
    qed
    then show ?thesis by (simp add: distinct_map)
  qed
  have solo: "solo (fst ` ?its ` set (stride G (nat N) k)) (er_kernel fetch G N pTsub pTe)
      (er_init k) m0 M"
    if k: "k < G" and M: "seq_items (map ?its (stride G (nat N) k)) m0 = Some M" for k M
  proof (rule er_thread_solo [OF G(1) bound])
    show "\<forall>j \<in> set (stride G (nat N) k). \<exists>e. fetch (int j) = Some e \<and> 0 \<le> e"
      using fe by (auto simp: set_stride)
    show "seq_items (map ?its (stride G (nat N) k)) m0 = Some M" by (fact M)
    show "fst ` ?its ` set (stride G (nat N) k) \<subseteq> fst ` ?its ` set (stride G (nat N) k)" by simp
    show "er_pc (er_init k) = ER_while" by (simp add: er_init_def)
    have "int k < 2 ^ 31" using k G(2) by linarith
    then show "er_i (er_init k) = int k" by (simp add: er_init_def to_int32_id)
  qed
  note gl = grid_launch_seq [where its = ?its and ws = "[0..<nat N]"
      and work = "stride G (nat N)" and G = G
      and kern = "\<lambda>tid. er_kernel fetch G N pTsub pTe" and init = er_init,
      OF seq d stride_partition(1) [OF G(1)] _ stride_partition(2) [OF G(1)] solo]
  have dw: "\<forall>k < G. distinct (stride G (nat N) k)" by (simp add: distinct_stride)
  show "launch (\<lambda>tid. er_kernel fetch G N pTsub pTe) er_init G sched m0 \<noteq> Fault"
    by (rule gl(1) [OF dw])
  show "launch (\<lambda>tid. er_kernel fetch G N pTsub pTe) er_init G sched m0 = Final m \<Longrightarrow> m = m'"
    by (rule gl(2) [OF dw])
  show "\<exists>sched'. launch (\<lambda>tid. er_kernel fetch G N pTsub pTe) er_init G sched' m0 = Final m'"
    by (rule gl(3) [OF dw])
qed

text \<open>
  What a launch can write at all, with or without data races: when every access of every
  thread is at a subscript in \<open>W\<close> (as a property \<open>I\<close> of the local states shows), the
  cells outside \<open>W\<close> are left as they were.
\<close>

lemma run_frame:
  assumes tau: "\<forall>k l l'. k < G \<and> I k l \<and> kern k l = Tau l' \<longrightarrow> I k l'"
    and acc: "\<forall>k l a f c. k < G \<and> I k l \<and> kern k l = Access a f \<longrightarrow> a \<in> W \<and> I k (fst (f c))"
  shows "run kern sched (ls, m) = Some (ls', m') \<Longrightarrow> length ls = G \<Longrightarrow> \<forall>k < G. I k (ls ! k) \<Longrightarrow>
     length ls' = G \<and> (\<forall>k < G. I k (ls' ! k)) \<and> length m' = length m \<and>
     (\<forall>a. a \<notin> W \<longrightarrow> m' ! a = m ! a)"
proof (induction sched arbitrary: ls m)
  case Nil
  then show ?case by simp
next
  case (Cons k ks)
  from Cons.prems(1) obtain ls1 m1 where g: "grid_step kern k (ls, m) = Some (ls1, m1)"
    and r: "run kern ks (ls1, m1) = Some (ls', m')"
    by (auto split: option.splits)
  have upd: "\<forall>j < G. I j (ls[k := l'] ! j)" if "I k l'" for l'
  proof (intro allI impI)
    fix j assume "j < G"
    then show "I j (ls[k := l'] ! j)"
      using that Cons.prems(2,3) by (cases "j = k") simp_all
  qed
  have step: "length ls1 = G \<and> (\<forall>j < G. I j (ls1 ! j)) \<and> length m1 = length m \<and>
      (\<forall>a. a \<notin> W \<longrightarrow> m1 ! a = m ! a)"
  proof (cases "k < G")
    case False
    with g Cons.prems show ?thesis by (simp add: grid_step_def)
  next
    case True
    have Ik: "I k (ls ! k)" using Cons.prems(3) True by simp
    show ?thesis
    proof (cases "kern k (ls ! k)")
      case Halt
      with g True Cons.prems show ?thesis by (simp add: grid_step_def thread_step_def)
    next
      case Crash
      with g True Cons.prems show ?thesis by (simp add: grid_step_def thread_step_def)
    next
      case (Tau l')
      with g True Cons.prems have e: "ls1 = ls[k := l']" "m1 = m"
        by (simp_all add: grid_step_def thread_step_def)
      have "I k l'" using tau True Ik Tau by blast
      from upd [OF this] e Cons.prems(2) show ?thesis by simp
    next
      case (Access a f)
      with g True Cons.prems(2) have a: "a < length m"
        and e: "ls1 = ls[k := fst (f (m ! a))]" "m1 = m[a := snd (f (m ! a))]"
        by (auto simp: grid_step_def thread_step_def split: if_splits prod.splits)
      from acc True Ik Access have aW: "a \<in> W" and I': "I k (fst (f (m ! a)))"
        by blast+
      have "\<forall>b. b \<notin> W \<longrightarrow> m1 ! b = m ! b"
        using aW e by (metis nth_list_update_neq)
      with upd [OF I'] e Cons.prems(2) show ?thesis by simp
    qed
  qed
  from Cons.IH [OF r] step show ?case by simp
qed

lemma launch_frame:
  assumes init: "\<forall>k < G. I k (init k)"
    and tau: "\<forall>k l l'. k < G \<and> I k l \<and> kern k l = Tau l' \<longrightarrow> I k l'"
    and acc: "\<forall>k l a f c. k < G \<and> I k l \<and> kern k l = Access a f \<longrightarrow> a \<in> W \<and> I k (fst (f c))"
    and fin: "launch kern init G sched m0 = Final m"
  shows "length m = length m0 \<and> (\<forall>a. a \<notin> W \<longrightarrow> m ! a = m0 ! a)"
proof -
  from fin obtain ls where r: "run kern sched (map init [0..<G], m0) = Some (ls, m)"
    by (auto simp: launch_def split: option.splits if_splits)
  have "length (map init [0..<G]) = G" "\<forall>k < G. I k (map init [0..<G] ! k)"
    using init by simp_all
  from run_frame [OF tau acc r this] show ?thesis by simp
qed

text \<open>The cells that the iterations below \<open>N\<close> of an edge repair kernel can touch.\<close>

lemma er_kernel_frame:
  assumes fin: "launch (\<lambda>tid. er_kernel fetch G N pTsub pTe) er_init G sched m0 = Final m"
  shows "length m = length m0 \<and>
    (\<forall>a. a \<notin> {nat e | e i. i < N \<and> fetch i = Some e \<and> 0 \<le> e} \<longrightarrow> m ! a = m0 ! a)"
proof -
  define I where "I = (\<lambda>(k :: nat) (l :: er_local). er_pc l \<noteq> ER_while \<and> er_pc l \<noteq> ER_incr \<longrightarrow>
      (\<exists>i. i < N \<and> fetch i = Some (er_e l)))"
  define W where "W = {nat e | e i. i < N \<and> fetch i = Some e \<and> 0 \<le> e}"
  have init: "\<forall>k < G. I k (er_init k)" by (simp add: I_def er_init_def)
  have tau: "\<forall>k l l'. k < G \<and> I k l \<and> er_kernel fetch G N pTsub pTe l = Tau l' \<longrightarrow> I k l'"
  proof (intro allI impI)
    fix k l l' assume h: "k < G \<and> I k l \<and> er_kernel fetch G N pTsub pTe l = Tau l'"
    then show "I k l'"
      unfolding I_def
      by (cases "er_pc l")
         (auto simp: er_kernel_def SingleEdgeRepair_thread_def split: if_splits option.splits)
  qed
  have acc: "\<forall>k l a f c. k < G \<and> I k l \<and> er_kernel fetch G N pTsub pTe l = Access a f \<longrightarrow>
      a \<in> W \<and> I k (fst (f c))"
  proof (intro allI impI)
    fix k l a f c assume h: "k < G \<and> I k l \<and> er_kernel fetch G N pTsub pTe l = Access a f"
    then show "a \<in> W \<and> I k (fst (f c))"
      unfolding I_def W_def
      by (cases "er_pc l")
         (auto simp: er_kernel_def SingleEdgeRepair_thread_def split: if_splits option.splits)
  qed
  from launch_frame [OF init tau acc fin] show ?thesis by (simp add: W_def)
qed

section \<open>Verification: the edge repair pass\<close>

definition er_fetch :: "int list option \<Rightarrow> int \<Rightarrow> int option" where
  "er_fetch enc = (case enc of None \<Rightarrow> Some | Some pEnC \<Rightarrow> rd pEnC)"

definition er_count :: "mesh \<Rightarrow> int list option \<Rightarrow> int \<Rightarrow> int" where
  "er_count s enc n = (case enc of None \<Rightarrow> edgeTriangles_size s | Some pEnC \<Rightarrow> n)"

lemma EdgeRepair_scheme:
  "EdgeRepair g s enc n =
     map_outcome (\<lambda>p. s\<lparr>edgeTriangles := p\<rparr>)
       (if cudaFlag s = 1 then
          launch (\<lambda>tid. er_kernel (er_fetch enc) (nThreadsTotal g) (er_count s enc n)
                    (triangleSubstitute s) (triangleEdges s))
            er_init (nThreadsTotal g) (schedule g) (edgeTriangles s)
        else of_option (er_host (er_fetch enc) (triangleSubstitute s) (triangleEdges s) 0
                          (er_count s enc n) (edgeTriangles s)))"
  by (cases enc)
     (simp_all add: EdgeRepair_def Let_def er_fetch_def er_count_def devEdgeRepair_scheme
        devEdgeRepairLimit_scheme host_all_scheme host_limit_scheme)

text \<open>
  The edges that a pass hands to \<^verbatim>\<open>SingleEdgeRepair\<close>: all edges below the edge count, or
  the first \<open>nEdgeCheck\<close> entries of the candidate list.
\<close>

definition processed_edges :: "mesh \<Rightarrow> int list option \<Rightarrow> int \<Rightarrow> int list" where
  "processed_edges s enc n =
     (case enc of
        None \<Rightarrow> map int [0..<nat (edgeTriangles_size s)]
      | Some pEnC \<Rightarrow> take (nat n) pEnC)"

text \<open>
  Triangle \<open>t\<close> has edge \<open>e\<close> in its edge list; a slot can be repaired without a fault (it is
  the sentinel, or a subscript of both \<^verbatim>\<open>pTsub\<close> and \<^verbatim>\<open>pTe\<close>); what a slot \<open>t\<close> of edge \<open>e\<close>
  becomes; what the entry of edge \<open>e\<close> becomes.
\<close>

definition contains_edge :: "mesh \<Rightarrow> int \<Rightarrow> int \<Rightarrow> bool" where
  "contains_edge s t e \<longleftrightarrow>
     e = i3x (triangleEdges s ! nat t) \<or> e = i3y (triangleEdges s ! nat t) \<or>
     e = i3z (triangleEdges s ! nat t)"

definition slot_ok :: "mesh \<Rightarrow> int \<Rightarrow> bool" where
  "slot_ok s t \<longleftrightarrow>
     t = - 1 \<or> (0 \<le> t \<and> t < int (length (triangleSubstitute s)) \<and> t < int (length (triangleEdges s)))"

definition one_step :: "mesh \<Rightarrow> int \<Rightarrow> int \<Rightarrow> int" where
  "one_step s e t = (if t = - 1 \<or> contains_edge s t e then t else triangleSubstitute s ! nat t)"

definition repaired :: "mesh \<Rightarrow> int \<Rightarrow> int2" where
  "repaired s e =
     (edgeTriangles s ! nat e)
       \<lparr>i2x := one_step s e (i2x (edgeTriangles s ! nat e)),
        i2y := one_step s e (i2y (edgeTriangles s ! nat e))\<rparr>"

text \<open>The pass meets no subscript outside an allocation when it reads the initial arrays.\<close>

definition repairable :: "mesh \<Rightarrow> int list option \<Rightarrow> int \<Rightarrow> bool" where
  "repairable s enc n \<longleftrightarrow>
     (case enc of None \<Rightarrow> True | Some pEnC \<Rightarrow> nat n \<le> length pEnC) \<and>
     list_all (\<lambda>e. 0 \<le> e \<and> e < int (length (edgeTriangles s)) \<and>
                 slot_ok s (i2x (edgeTriangles s ! nat e)) \<and>
                 slot_ok s (i2y (edgeTriangles s ! nat e)))
       (processed_edges s enc n)"

text \<open>The mesh in which every processed edge has its repaired entry.\<close>

definition er_result :: "mesh \<Rightarrow> int list option \<Rightarrow> int \<Rightarrow> mesh" where
  "er_result s enc n =
     s\<lparr>edgeTriangles :=
         map (\<lambda>a. if int a \<in> set (processed_edges s enc n) then repaired s (int a)
                  else edgeTriangles s ! a)
           [0..<length (edgeTriangles s)]\<rparr>"

text \<open>
  The grid of a launch over \<open>N\<close> iterations: it has a thread, and the loop variable of a
  thread stays below \<open>2^31\<close>.
\<close>

definition grid_ok :: "grid \<Rightarrow> int \<Rightarrow> bool" where
  "grid_ok g N \<longleftrightarrow>
     0 < nThreadsTotal g \<and> int (nThreadsTotal g) \<le> 2 ^ 31 \<and> N + int (nThreadsTotal g) \<le> 2 ^ 31"

lemma repair_slot_one_step:
  "slot_ok s t \<Longrightarrow>
     repair_slot e (triangleSubstitute s) (triangleEdges s) t = Some (one_step s e t)"
  by (auto simp: slot_ok_def repair_slot_def one_step_def contains_edge_def rd_def)

lemma repair_entry_repaired:
  "slot_ok s (i2x (edgeTriangles s ! nat e)) \<Longrightarrow> slot_ok s (i2y (edgeTriangles s ! nat e)) \<Longrightarrow>
     repair_entry e (triangleSubstitute s) (triangleEdges s) (edgeTriangles s ! nat e)
       = Some (repaired s e)"
  by (simp add: repair_entry_def repair_slot_one_step repaired_def)

lemma take_as_map: "n \<le> length xs \<Longrightarrow> map ((!) xs) [0..<n] = take n xs"
  by (rule nth_equalityI) simp_all

lemma processed_edges_fetch:
  assumes "repairable s enc n"
  shows "length (processed_edges s enc n) = nat (er_count s enc n)"
    and "\<And>j. j < nat (er_count s enc n) \<Longrightarrow>
           er_fetch enc (int j) = Some (processed_edges s enc n ! j)"
    and "map (\<lambda>j. the (er_fetch enc (int j))) [0..<nat (er_count s enc n)]
           = processed_edges s enc n"
proof -
  show len: "length (processed_edges s enc n) = nat (er_count s enc n)"
    using assms by (cases enc) (simp_all add: processed_edges_def er_count_def repairable_def)
  show f: "er_fetch enc (int j) = Some (processed_edges s enc n ! j)"
    if "j < nat (er_count s enc n)" for j
    using assms that
    by (cases enc) (simp_all add: processed_edges_def er_count_def repairable_def er_fetch_def rd_def)
  show "map (\<lambda>j. the (er_fetch enc (int j))) [0..<nat (er_count s enc n)]
           = processed_edges s enc n"
    by (rule nth_equalityI) (simp_all add: len f)
qed


lemma repairable_edge:
  "repairable s enc n \<Longrightarrow> e \<in> set (processed_edges s enc n) \<Longrightarrow>
     0 \<le> e \<and> nat e < length (edgeTriangles s) \<and>
     slot_ok s (i2x (edgeTriangles s ! nat e)) \<and> slot_ok s (i2y (edgeTriangles s ! nat e))"
  by (auto simp: repairable_def list_all_iff)

text \<open>
  The host loop of a pass that repairs no edge twice returns, and leaves every processed
  edge with its repaired entry and every other entry as it was.
\<close>

lemma er_host_result:
  assumes rep: "repairable s enc n" and dist: "distinct (processed_edges s enc n)"
  shows "er_host (er_fetch enc) (triangleSubstitute s) (triangleEdges s) 0 (er_count s enc n)
           (edgeTriangles s) = Some (edgeTriangles (er_result s enc n))"
proof -
  let ?N = "er_count s enc n" and ?es = "processed_edges s enc n"
  let ?its = "er_items (er_fetch enc) (triangleSubstitute s) (triangleEdges s)"
  let ?m = "edgeTriangles s"
  note pf = processed_edges_fetch [OF rep]
  have mem: "\<And>j. j < nat ?N \<Longrightarrow> ?es ! j \<in> set ?es" using pf(1) by simp
  have fe: "\<And>j. j < nat ?N \<Longrightarrow> \<exists>e. er_fetch enc (int j) = Some e \<and> 0 \<le> e"
    using pf(2) repairable_edge [OF rep] mem by blast
  have its: "\<And>j. j < nat ?N \<Longrightarrow>
      ?its j = (nat (?es ! j), repair_entry (?es ! j) (triangleSubstitute s) (triangleEdges s))"
    using pf(2) by (simp add: er_items_def edge_item_def)
  have h: "er_host (er_fetch enc) (triangleSubstitute s) (triangleEdges s) 0 ?N ?m
      = seq_items (map ?its [0..<nat ?N]) ?m"
    using er_host_eq [of 0 ?N "er_fetch enc"] fe by simp
  have fsts: "map fst (map ?its [0..<nat ?N]) = map nat ?es"
    by (rule nth_equalityI) (simp_all add: pf(1) its)
  have "inj_on nat (set ?es)"
  proof (rule inj_onI)
    fix x y assume x: "x \<in> set ?es" and y: "y \<in> set ?es" and e: "nat x = nat y"
    have "0 \<le> x" "0 \<le> y"
      using repairable_edge [OF rep x] repairable_edge [OF rep y] by blast+
    with e show "x = y" by (simp add: eq_nat_nat_iff)
  qed
  with dist have d: "distinct (map fst (map ?its [0..<nat ?N]))"
    unfolding fsts by (simp add: distinct_map)
  have ok: "\<forall>it \<in> set (map ?its [0..<nat ?N]). fst it < length ?m \<and> snd it (?m ! fst it) \<noteq> None"
  proof
    fix it assume "it \<in> set (map ?its [0..<nat ?N])"
    then obtain j where j: "j < nat ?N" "it = ?its j" by auto
    from repairable_edge [OF rep mem [OF j(1)]] repair_entry_repaired [of s "?es ! j"]
    show "fst it < length ?m \<and> snd it (?m ! fst it) \<noteq> None"
      by (simp add: j(2) its [OF j(1)])
  qed
  from seq_items_exists [OF d ok] obtain m' where m': "seq_items (map ?its [0..<nat ?N]) ?m = Some m'"
    by blast
  note fr = seq_items_frame [OF m'] and pt = seq_items_distinct [OF d m']
  have "m' = edgeTriangles (er_result s enc n)"
  proof (rule nth_equalityI)
    show "length m' = length (edgeTriangles (er_result s enc n))"
      using fr by (simp add: er_result_def)
  next
    fix a assume "a < length m'"
    then have a: "a < length ?m" using fr by simp
    show "m' ! a = edgeTriangles (er_result s enc n) ! a"
    proof (cases "int a \<in> set ?es")
      case True
      then obtain j where j: "j < nat ?N" "?es ! j = int a"
        using pf(1) by (auto simp: in_set_conv_nth)
      have "?its j \<in> set (map ?its [0..<nat ?N])" using j(1) by simp
      with pt have "snd (?its j) (?m ! fst (?its j)) = Some (m' ! fst (?its j))" by blast
      then have "repair_entry (int a) (triangleSubstitute s) (triangleEdges s) (?m ! a)
          = Some (m' ! a)" using its [OF j(1)] j(2) by simp
      moreover from repairable_edge [OF rep True]
      have "repair_entry (int a) (triangleSubstitute s) (triangleEdges s) (?m ! nat (int a))
          = Some (repaired s (int a))" by (intro repair_entry_repaired) simp_all
      ultimately have "m' ! a = repaired s (int a)" by simp
      with True a show ?thesis by (simp add: er_result_def)
    next
      case False
      have "a \<notin> fst ` set (map ?its [0..<nat ?N])"
      proof
        assume "a \<in> fst ` set (map ?its [0..<nat ?N])"
        then have "a \<in> set (map fst (map ?its [0..<nat ?N]))" by (simp add: image_image)
        then have "a \<in> nat ` set ?es" unfolding fsts by simp
        then obtain e where e: "e \<in> set ?es" "a = nat e" by blast
        with repairable_edge [OF rep e(1)] have "int a = e" by simp
        with e(1) False show False by simp
      qed
      with fr have "m' ! a = ?m ! a" by blast
      with False a show ?thesis by (simp add: er_result_def)
    qed
  qed
  with h m' show ?thesis by simp
qed

text \<open>
  The pass on either path, when it repairs no edge twice and meets no subscript outside an
  allocation: the host path returns the mesh \<open>er_result\<close>; on the device no schedule
  faults, some schedule runs the launch to its end, and every schedule that does so
  yields \<open>er_result\<close>.
\<close>

lemma EdgeRepair_host_result:
  assumes "repairable s enc n" and "distinct (processed_edges s enc n)" and "cudaFlag s \<noteq> 1"
  shows "EdgeRepair g s enc n = Final (er_result s enc n)"
proof -
  have "s\<lparr>edgeTriangles := edgeTriangles (er_result s enc n)\<rparr> = er_result s enc n"
    by (simp add: er_result_def)
  then show ?thesis
    using assms(3) er_host_result [OF assms(1,2)] by (simp add: EdgeRepair_scheme of_option_def)
qed

lemma EdgeRepair_device_result:
  assumes rep: "repairable s enc n" and dist: "distinct (processed_edges s enc n)"
    and dev: "cudaFlag s = 1" and grid: "grid_ok g (er_count s enc n)"
  shows "EdgeRepair g s enc n = Final (er_result s enc n) \<or> EdgeRepair g s enc n = Unfinished"
    and "\<exists>sched. EdgeRepair (g\<lparr>schedule := sched\<rparr>) s enc n = Final (er_result s enc n)"
proof -
  let ?G = "nThreadsTotal g" and ?N = "er_count s enc n"
  let ?k = "\<lambda>tid :: nat. er_kernel (er_fetch enc) ?G ?N (triangleSubstitute s) (triangleEdges s)"
  let ?m' = "edgeTriangles (er_result s enc n)"
  have res: "s\<lparr>edgeTriangles := ?m'\<rparr> = er_result s enc n" by (simp add: er_result_def)
  from grid have G: "0 < ?G" "int ?G \<le> 2 ^ 31" "?N + int ?G \<le> 2 ^ 31"
    by (simp_all add: grid_ok_def)
  have d: "distinct (map (\<lambda>j. the (er_fetch enc (int j))) [0..<nat ?N])"
    using dist processed_edges_fetch(3) [OF rep] by simp
  note dh = er_device_host [OF G er_host_result [OF rep dist] d]
  show "EdgeRepair g s enc n = Final (er_result s enc n) \<or> EdgeRepair g s enc n = Unfinished"
  proof (cases "launch ?k er_init ?G (schedule g) (edgeTriangles s)")
    case (Final m)
    with dh(2) [OF Final] dev res show ?thesis by (simp add: EdgeRepair_scheme)
  next
    case Fault
    with dh(1) [of "schedule g"] show ?thesis by simp
  next
    case Unfinished
    with dev show ?thesis by (simp add: EdgeRepair_scheme)
  qed
  from dh(3) obtain sched where "launch ?k er_init ?G sched (edgeTriangles s) = Final ?m'"
    by blast
  with dev res have "EdgeRepair (g\<lparr>schedule := sched\<rparr>) s enc n = Final (er_result s enc n)"
    by (simp add: EdgeRepair_scheme)
  then show "\<exists>sched. EdgeRepair (g\<lparr>schedule := sched\<rparr>) s enc n = Final (er_result s enc n)"
    by blast
qed

lemma map_outcome_Final: "map_outcome f r = Final y \<longleftrightarrow> (\<exists>x. r = Final x \<and> y = f x)"
  by (cases r) auto

lemma of_option_Final: "of_option r = Final y \<longleftrightarrow> r = Some y"
  by (cases r) (simp_all add: of_option_def)

text \<open>
  What a pass leaves alone, on either path and for every input: the other arrays, and
  every entry of \<^verbatim>\<open>pEt\<close> but those of the edges handed to \<^verbatim>\<open>SingleEdgeRepair\<close>.
\<close>

lemma EdgeRepair_unchanged:
  assumes fin: "EdgeRepair g s enc n = Final s'"
  shows "\<exists>p'. s' = s\<lparr>edgeTriangles := p'\<rparr> \<and> length p' = length (edgeTriangles s) \<and>
    (\<forall>a. a \<notin> {nat e | e i. i < er_count s enc n \<and> er_fetch enc i = Some e \<and> 0 \<le> e}
       \<longrightarrow> p' ! a = edgeTriangles s ! a)"
proof (cases "cudaFlag s = 1")
  case True
  with fin obtain p' where p: "s' = s\<lparr>edgeTriangles := p'\<rparr>"
    and l: "launch (\<lambda>tid. er_kernel (er_fetch enc) (nThreadsTotal g) (er_count s enc n)
                    (triangleSubstitute s) (triangleEdges s))
            er_init (nThreadsTotal g) (schedule g) (edgeTriangles s) = Final p'"
    by (auto simp: EdgeRepair_scheme map_outcome_Final)
  from er_kernel_frame [OF l] p show ?thesis by blast
next
  case False
  let ?its = "er_items (er_fetch enc) (triangleSubstitute s) (triangleEdges s)"
  from False fin obtain p' where p: "s' = s\<lparr>edgeTriangles := p'\<rparr>"
    and h: "er_host (er_fetch enc) (triangleSubstitute s) (triangleEdges s) 0
              (er_count s enc n) (edgeTriangles s) = Some p'"
    by (auto simp: EdgeRepair_scheme map_outcome_Final of_option_Final)
  from er_host_Some [OF h] have fe: "\<And>j. j < nat (er_count s enc n) \<Longrightarrow>
      \<exists>e. er_fetch enc (int j) = Some e \<and> 0 \<le> e"
    and seq: "seq_items (map ?its [0..<nat (er_count s enc n)]) (edgeTriangles s) = Some p'"
    by auto
  have "p' ! a = edgeTriangles s ! a"
    if a: "a \<notin> {nat e | e i. i < er_count s enc n \<and> er_fetch enc i = Some e \<and> 0 \<le> e}" for a
  proof -
    have "a \<notin> fst ` set (map ?its [0..<nat (er_count s enc n)])"
    proof
      assume "a \<in> fst ` set (map ?its [0..<nat (er_count s enc n)])"
      then obtain j where j: "j < nat (er_count s enc n)" "a = fst (?its j)" by auto
      from fe [OF j(1)] obtain e where e: "er_fetch enc (int j) = Some e" "0 \<le> e" by blast
      then have "a = nat e" using j(2) by (simp add: er_items_def edge_item_def)
      moreover have "int j < er_count s enc n" using j(1) by linarith
      ultimately show False using a e by blast
    qed
    with seq_items_frame [OF seq] show ?thesis by blast
  qed
  with seq_items_frame [OF seq] p show ?thesis by blast
qed

section \<open>Verification: the claims on edge repair\<close>

text \<open>
  The specification's reading of the repair, as a second definition to compare with the
  code: follow the substitutes from a triangle until a triangle has the edge in its edge
  list, for at most \<open>k\<close> lookups.
\<close>

fun spec_chain_walk :: "mesh \<Rightarrow> int \<Rightarrow> nat \<Rightarrow> int \<Rightarrow> int option" where
  "spec_chain_walk s e 0 t = (if contains_edge s t e then Some t else None)"
| "spec_chain_walk s e (Suc k) t =
     (if contains_edge s t e then Some t
      else spec_chain_walk s e k (triangleSubstitute s ! nat t))"

text \<open>
  A mesh after two flips in a row: edge \<open>0\<close> refers to triangle \<open>0\<close>, which has lost it; the
  substitute of triangle \<open>0\<close> is triangle \<open>1\<close>, which has lost it as well; the substitute of
  triangle \<open>1\<close> is triangle \<open>2\<close>, which has edge \<open>0\<close>.
\<close>

definition mesh_chain :: mesh where
  "mesh_chain =
     \<lparr>triangleEdges = [\<lparr>i3x = 5, i3y = 6, i3z = 7\<rparr>, \<lparr>i3x = 5, i3y = 6, i3z = 8\<rparr>,
                       \<lparr>i3x = 0, i3y = 3, i3z = 4\<rparr>],
      edgeTriangles = [\<lparr>i2x = 0, i2y = - 1\<rparr>],
      edgeTriangles_size = 1,
      triangleSubstitute = [1, 2, 2],
      cudaFlag = 0\<rparr>"

text \<open>A mesh after one flip: the substitute of the stale triangle \<open>0\<close> has edge \<open>0\<close>.\<close>

definition mesh_flip :: mesh where
  "mesh_flip =
     \<lparr>triangleEdges = [\<lparr>i3x = 1, i3y = 2, i3z = 3\<rparr>, \<lparr>i3x = 0, i3y = 1, i3z = 4\<rparr>],
      edgeTriangles = [\<lparr>i2x = 0, i2y = - 1\<rparr>, \<lparr>i2x = 0, i2y = 1\<rparr>],
      edgeTriangles_size = 2,
      triangleSubstitute = [1, 0],
      cudaFlag = 0\<rparr>"

definition grid1 :: grid where
  "grid1 = \<lparr>nThreadsTotal = 1, schedule = []\<rparr>"

lemma EdgeRepair_mesh_chain:
  "EdgeRepair grid1 mesh_chain None 0
     = Final (mesh_chain\<lparr>edgeTriangles := [\<lparr>i2x = 1, i2y = - 1\<rparr>]\<rparr>)"
  by (simp add: EdgeRepair_def mesh_chain_def for_loop.simps SingleEdgeRepair_eq rd_def
      repair_entry_def repair_slot_def of_option_def)

lemma EdgeRepair_mesh_flip:
  "EdgeRepair grid1 mesh_flip None 0
     = Final (mesh_flip\<lparr>edgeTriangles := [\<lparr>i2x = 1, i2y = - 1\<rparr>, \<lparr>i2x = 0, i2y = 1\<rparr>]\<rparr>)"
  by (simp add: EdgeRepair_def mesh_flip_def for_loop.simps SingleEdgeRepair_eq rd_def
      repair_entry_def repair_slot_def of_option_def)

lemma repairable_mesh_flip: "repairable mesh_flip None 0"
  by (simp add: repairable_def processed_edges_def mesh_flip_def slot_ok_def eval_nat_numeral)

lemma distinct_all_edges: "distinct (processed_edges s None n)"
  by (simp add: processed_edges_def distinct_map)

text \<open>
  Claim C1, as stated, fails: on \<open>mesh_chain\<close> the pass rewrites the stale reference of
  edge \<open>0\<close> to triangle \<open>1\<close>, the substitute of the stale triangle, which does not have
  edge \<open>0\<close>; the chain walk of the claim ends at triangle \<open>2\<close>.
\<close>

theorem EdgeRepair_no_chain_walk:
  "EdgeRepair grid1 mesh_chain None 0
     = Final (mesh_chain\<lparr>edgeTriangles := [\<lparr>i2x = 1, i2y = - 1\<rparr>]\<rparr>) \<and>
   \<not> contains_edge mesh_chain 0 0 \<and> \<not> contains_edge mesh_chain 1 0 \<and>
   spec_chain_walk mesh_chain 0 2 0 = Some 2"
  by (simp add: EdgeRepair_mesh_chain)
     (simp add: mesh_chain_def contains_edge_def eval_nat_numeral)

text \<open>
  Claim C1, amended. In a pass that hands no edge twice to \<^verbatim>\<open>SingleEdgeRepair\<close> and meets no
  subscript outside an allocation, a slot of a processed edge \<open>e\<close> that refers to a triangle
  \<open>t\<close> without \<open>e\<close> in its edge list is rewritten to \<^verbatim>\<open>pTsub[t]\<close>, by one lookup; that is
  the end of the chain walk when \<^verbatim>\<open>pTsub[t]\<close> has \<open>e\<close> in its edge list.
\<close>

theorem EdgeRepair_one_lookup:
  assumes "repairable s enc n" and "distinct (processed_edges s enc n)"
    and "cudaFlag s = 1 \<longrightarrow> grid_ok g (er_count s enc n)"
    and "EdgeRepair g s enc n = Final s'"
    and "e \<in> set (processed_edges s enc n)"
  shows "(i2x (edgeTriangles s ! nat e) \<noteq> - 1 \<and>
           \<not> contains_edge s (i2x (edgeTriangles s ! nat e)) e \<longrightarrow>
           i2x (edgeTriangles s' ! nat e) = triangleSubstitute s ! nat (i2x (edgeTriangles s ! nat e)) \<and>
           (contains_edge s (i2x (edgeTriangles s' ! nat e)) e \<longrightarrow>
              spec_chain_walk s e 1 (i2x (edgeTriangles s ! nat e))
                = Some (i2x (edgeTriangles s' ! nat e)))) \<and>
         (i2y (edgeTriangles s ! nat e) \<noteq> - 1 \<and>
           \<not> contains_edge s (i2y (edgeTriangles s ! nat e)) e \<longrightarrow>
           i2y (edgeTriangles s' ! nat e) = triangleSubstitute s ! nat (i2y (edgeTriangles s ! nat e)) \<and>
           (contains_edge s (i2y (edgeTriangles s' ! nat e)) e \<longrightarrow>
              spec_chain_walk s e 1 (i2y (edgeTriangles s ! nat e))
                = Some (i2y (edgeTriangles s' ! nat e))))"
proof -
  have s': "s' = er_result s enc n"
  proof (cases "cudaFlag s = 1")
    case True
    with assms(3) have "grid_ok g (er_count s enc n)" by simp
    from EdgeRepair_device_result(1) [OF assms(1,2) True this] assms(4) show ?thesis by simp
  next
    case False
    from EdgeRepair_host_result [OF assms(1,2) False, of g] assms(4) show ?thesis by simp
  qed
  from repairable_edge [OF assms(1,5)] have e: "0 \<le> e" "nat e < length (edgeTriangles s)" by simp_all
  have ent: "edgeTriangles s' ! nat e = repaired s e"
    using e assms(5) by (simp add: s' er_result_def)
  show ?thesis
    by (simp add: ent repaired_def one_step_def)
qed

theorem EdgeRepair_one_lookup_witness:
  "repairable mesh_flip None 0 \<and> distinct (processed_edges mesh_flip None 0) \<and>
   EdgeRepair grid1 mesh_flip None 0
     = Final (mesh_flip\<lparr>edgeTriangles := [\<lparr>i2x = 1, i2y = - 1\<rparr>, \<lparr>i2x = 0, i2y = 1\<rparr>]\<rparr>) \<and>
   0 \<in> set (processed_edges mesh_flip None 0) \<and>
   \<not> contains_edge mesh_flip 0 0 \<and> contains_edge mesh_flip 1 0 \<and>
   spec_chain_walk mesh_flip 0 1 0 = Some 1"
proof -
  have c: "cudaFlag mesh_flip = 1 \<longrightarrow> grid_ok grid1 (er_count mesh_flip None 0)"
    by (simp add: mesh_flip_def)
  have m: "0 \<in> set (processed_edges mesh_flip None 0)"
    by (simp add: processed_edges_def mesh_flip_def)
  have st: "\<not> contains_edge mesh_flip 0 0" "contains_edge mesh_flip 1 0"
    by (simp_all add: contains_edge_def mesh_flip_def)
  from EdgeRepair_one_lookup [OF repairable_mesh_flip distinct_all_edges c EdgeRepair_mesh_flip m]
  have "spec_chain_walk mesh_flip 0 1 0 = Some 1"
    using st by (simp add: mesh_flip_def)
  with repairable_mesh_flip distinct_all_edges EdgeRepair_mesh_flip m st show ?thesis by simp
qed


lemma EdgeRepair_host_processed:
  assumes "cudaFlag s \<noteq> 1" and fin: "EdgeRepair g s None n = Final s'"
    and i: "0 \<le> i" "i < edgeTriangles_size s"
  shows "nat i < length (edgeTriangles s) \<and>
    repair_entry i (triangleSubstitute s) (triangleEdges s) (edgeTriangles s ! nat i)
      = Some (edgeTriangles s' ! nat i)"
proof -
  let ?its = "er_items Some (triangleSubstitute s) (triangleEdges s)"
  let ?N = "edgeTriangles_size s"
  from assms(1) fin obtain p' where p: "s' = s\<lparr>edgeTriangles := p'\<rparr>"
    and h: "er_host Some (triangleSubstitute s) (triangleEdges s) 0 ?N (edgeTriangles s) = Some p'"
    by (auto simp: EdgeRepair_scheme map_outcome_Final of_option_Final er_fetch_def er_count_def)
  from er_host_Some [OF h] have seq: "seq_items (map ?its [0..<nat ?N]) (edgeTriangles s) = Some p'"
    by simp
  have "map fst (map ?its [0..<nat ?N]) = [0..<nat ?N]"
    by (rule nth_equalityI) (simp_all add: er_items_def edge_item_def)
  then have d: "distinct (map fst (map ?its [0..<nat ?N]))" by simp
  have "?its (nat i) \<in> set (map ?its [0..<nat ?N])" using i by simp
  with seq_items_distinct [OF d seq]
  have "fst (?its (nat i)) < length (edgeTriangles s) \<and>
      snd (?its (nat i)) (edgeTriangles s ! fst (?its (nat i))) = Some (p' ! fst (?its (nat i)))"
    by blast
  then show ?thesis using i(1) p by (simp add: er_items_def edge_item_def)
qed

text \<open>
  What a pass that has returned leaves: the triangle-edge table and the substitute array
  as they were; with a candidate list, the entry of every edge that is not among its
  first \<open>nEdgeCheck\<close> entries unchanged; without one, for every edge \<open>i\<close> below the edge
  count the entry that \<^verbatim>\<open>SingleEdgeRepair(i)\<close> computes from the table before the pass.
\<close>

lemma EdgeRepair_final_frame:
  assumes "EdgeRepair g s enc n = Final s'"
  shows "triangleEdges s' = triangleEdges s \<and> triangleSubstitute s' = triangleSubstitute s \<and>
    length (edgeTriangles s') = length (edgeTriangles s) \<and>
    (\<forall>pEnC a. enc = Some pEnC \<and> int a \<notin> set (take (nat n) pEnC)
       \<longrightarrow> edgeTriangles s' ! a = edgeTriangles s ! a) \<and>
    (enc = None \<and> (cudaFlag s = 1 \<longrightarrow> grid_ok g (edgeTriangles_size s) \<and> repairable s None n)
       \<longrightarrow> (\<forall>i. 0 \<le> i \<and> i < edgeTriangles_size s \<longrightarrow>
              SingleEdgeRepair i (triangleSubstitute s) (triangleEdges s) (edgeTriangles s)
                = Some ((edgeTriangles s)[nat i := edgeTriangles s' ! nat i])))"
proof -
  from EdgeRepair_unchanged [OF assms] obtain p' where p: "s' = s\<lparr>edgeTriangles := p'\<rparr>"
    and len: "length p' = length (edgeTriangles s)"
    and out: "\<And>a. a \<notin> {nat e | e i. i < er_count s enc n \<and> er_fetch enc i = Some e \<and> 0 \<le> e}
       \<Longrightarrow> p' ! a = edgeTriangles s ! a" by blast
  have a: "triangleEdges s' = triangleEdges s" "triangleSubstitute s' = triangleSubstitute s"
    "length (edgeTriangles s') = length (edgeTriangles s)" using p len by simp_all
  have b: "\<forall>pEnC a. enc = Some pEnC \<and> int a \<notin> set (take (nat n) pEnC)
       \<longrightarrow> edgeTriangles s' ! a = edgeTriangles s ! a"
  proof (intro allI impI)
    fix pEnC a assume h: "enc = Some pEnC \<and> int a \<notin> set (take (nat n) pEnC)"
    have "a \<notin> {nat e | e i. i < er_count s enc n \<and> er_fetch enc i = Some e \<and> 0 \<le> e}"
    proof
      assume "a \<in> {nat e | e i. i < er_count s enc n \<and> er_fetch enc i = Some e \<and> 0 \<le> e}"
      then obtain e i where ei: "a = nat e" "i < n" "rd pEnC i = Some e" "0 \<le> e"
        using h by (auto simp: er_count_def er_fetch_def)
      from ei(3) have i: "0 \<le> i" "nat i < length pEnC" "pEnC ! nat i = e"
        by (auto simp: rd_Some_iff)
      have "nat i < nat n" using ei(2) i(1) by linarith
      with i have "e \<in> set (take (nat n) pEnC)"
        by (auto simp: in_set_conv_nth intro!: exI [of _ "nat i"])
      with ei h show False by simp
    qed
    from out [OF this] p show "edgeTriangles s' ! a = edgeTriangles s ! a" by simp
  qed
  have c: "enc = None \<and> (cudaFlag s = 1 \<longrightarrow> grid_ok g (edgeTriangles_size s) \<and> repairable s None n)
       \<longrightarrow> (\<forall>i. 0 \<le> i \<and> i < edgeTriangles_size s \<longrightarrow>
              SingleEdgeRepair i (triangleSubstitute s) (triangleEdges s) (edgeTriangles s)
                = Some ((edgeTriangles s)[nat i := edgeTriangles s' ! nat i]))"
  proof (intro allI impI)
    fix i
    assume h: "enc = None \<and> (cudaFlag s = 1 \<longrightarrow> grid_ok g (edgeTriangles_size s) \<and> repairable s None n)"
      and i: "0 \<le> i \<and> i < edgeTriangles_size s"
    have "nat i < length (edgeTriangles s) \<and>
      repair_entry i (triangleSubstitute s) (triangleEdges s) (edgeTriangles s ! nat i)
        = Some (edgeTriangles s' ! nat i)"
    proof (cases "cudaFlag s = 1")
      case False
      from EdgeRepair_host_processed [OF False _ _ _, of g n s' i] assms h i show ?thesis by simp
    next
      case True
      with h have g: "grid_ok g (er_count s None n)" and r: "repairable s None n"
        by (simp_all add: er_count_def)
      from EdgeRepair_device_result(1) [OF r distinct_all_edges True g] assms h
      have s': "s' = er_result s None n" by simp
      have "nat i \<in> {0..<nat (edgeTriangles_size s)}" "int (nat i) = i" using i by auto
      then have "i \<in> int ` {0..<nat (edgeTriangles_size s)}" by (metis imageI)
      then have m: "i \<in> set (processed_edges s None n)" by (simp add: processed_edges_def)
      from repairable_edge [OF r m] have e: "nat i < length (edgeTriangles s)"
        and ok: "slot_ok s (i2x (edgeTriangles s ! nat i))" "slot_ok s (i2y (edgeTriangles s ! nat i))"
        by simp_all
      have "edgeTriangles s' ! nat i = repaired s i"
        using e m i by (simp add: s' er_result_def)
      with repair_entry_repaired [OF ok] e show ?thesis by simp
    qed
    moreover from this i have "i < int (length (edgeTriangles s))" by linarith
    ultimately show "SingleEdgeRepair i (triangleSubstitute s) (triangleEdges s) (edgeTriangles s)
                = Some ((edgeTriangles s)[nat i := edgeTriangles s' ! nat i])"
      using i by (simp add: SingleEdgeRepair_eq rd_def)
  qed
  from a b c show ?thesis by blast
qed

text \<open>A candidate list that names edge \<open>1\<close> only.\<close>

lemma EdgeRepair_mesh_flip_list:
  "EdgeRepair grid1 mesh_flip (Some [1, 0]) 1 = Final mesh_flip"
  by (simp add: EdgeRepair_def mesh_flip_def for_loop.simps SingleEdgeRepair_eq rd_def
      repair_entry_def repair_slot_def of_option_def)

text \<open>
  Claim C4. A pass whose subscripts are all inside the arrays and that hands no edge twice
  to \<^verbatim>\<open>SingleEdgeRepair\<close> returns: the host loop always, the kernel without a fault under
  every schedule and with a result under some schedule (the grid being such that the
  loop variable of a thread does not wrap around). Without a candidate list these are
  the conditions on the edges below the edge count, none of which is repeated. A pass
  that returns leaves the triangle-edge table and the substitute array as they were.
  With a candidate list, the entry of every edge that is not among its first
  \<open>nEdgeCheck\<close> entries is unchanged. Without one, every edge \<open>i\<close> below the edge count is
  processed: its entry after the pass is the one that \<^verbatim>\<open>SingleEdgeRepair(i)\<close> computes from
  the table before the pass.
\<close>

theorem EdgeRepair_frame:
  "(repairable s enc n \<and> distinct (processed_edges s enc n) \<longrightarrow>
      (cudaFlag s \<noteq> 1 \<longrightarrow> (\<exists>s'. EdgeRepair g s enc n = Final s')) \<and>
      (cudaFlag s = 1 \<and> grid_ok g (er_count s enc n) \<longrightarrow>
         EdgeRepair g s enc n \<noteq> Fault \<and>
         (\<exists>sched s'. EdgeRepair (g\<lparr>schedule := sched\<rparr>) s enc n = Final s'))) \<and>
   (repairable s None n \<longrightarrow>
      (cudaFlag s \<noteq> 1 \<longrightarrow> (\<exists>s'. EdgeRepair g s None n = Final s')) \<and>
      (cudaFlag s = 1 \<and> grid_ok g (edgeTriangles_size s) \<longrightarrow>
         EdgeRepair g s None n \<noteq> Fault \<and>
         (\<exists>sched s'. EdgeRepair (g\<lparr>schedule := sched\<rparr>) s None n = Final s'))) \<and>
   (EdgeRepair g s enc n = Final s' \<longrightarrow>
      triangleEdges s' = triangleEdges s \<and> triangleSubstitute s' = triangleSubstitute s \<and>
      length (edgeTriangles s') = length (edgeTriangles s) \<and>
      (\<forall>pEnC a. enc = Some pEnC \<and> int a \<notin> set (take (nat n) pEnC)
         \<longrightarrow> edgeTriangles s' ! a = edgeTriangles s ! a) \<and>
      (enc = None \<and> (cudaFlag s = 1 \<longrightarrow> grid_ok g (edgeTriangles_size s) \<and> repairable s None n)
         \<longrightarrow> (\<forall>i. 0 \<le> i \<and> i < edgeTriangles_size s \<longrightarrow>
                SingleEdgeRepair i (triangleSubstitute s) (triangleEdges s) (edgeTriangles s)
                  = Some ((edgeTriangles s)[nat i := edgeTriangles s' ! nat i]))))"
proof -
  have ret: "(cudaFlag s \<noteq> 1 \<longrightarrow> (\<exists>s'. EdgeRepair g s e n = Final s')) \<and>
      (cudaFlag s = 1 \<and> grid_ok g (er_count s e n) \<longrightarrow>
         EdgeRepair g s e n \<noteq> Fault \<and>
         (\<exists>sched s'. EdgeRepair (g\<lparr>schedule := sched\<rparr>) s e n = Final s'))"
    if rep: "repairable s e n" and dist: "distinct (processed_edges s e n)" for e
  proof (intro conjI impI)
    assume "cudaFlag s \<noteq> 1"
    from EdgeRepair_host_result [OF rep dist this]
    show "\<exists>s'. EdgeRepair g s e n = Final s'" by blast
  next
    assume dev: "cudaFlag s = 1 \<and> grid_ok g (er_count s e n)"
    then have f: "cudaFlag s = 1" and gr: "grid_ok g (er_count s e n)" by simp_all
    from EdgeRepair_device_result(1) [OF rep dist f gr]
    show "EdgeRepair g s e n \<noteq> Fault" by auto
    from EdgeRepair_device_result(2) [OF rep dist f gr]
    show "\<exists>sched s'. EdgeRepair (g\<lparr>schedule := sched\<rparr>) s e n = Final s'" by blast
  qed
  have 1: "repairable s enc n \<and> distinct (processed_edges s enc n) \<longrightarrow>
      (cudaFlag s \<noteq> 1 \<longrightarrow> (\<exists>s'. EdgeRepair g s enc n = Final s')) \<and>
      (cudaFlag s = 1 \<and> grid_ok g (er_count s enc n) \<longrightarrow>
         EdgeRepair g s enc n \<noteq> Fault \<and>
         (\<exists>sched s'. EdgeRepair (g\<lparr>schedule := sched\<rparr>) s enc n = Final s'))"
    using ret [of enc] by blast
  have c: "er_count s None n = edgeTriangles_size s" by (simp add: er_count_def)
  have 2: "repairable s None n \<longrightarrow>
      (cudaFlag s \<noteq> 1 \<longrightarrow> (\<exists>s'. EdgeRepair g s None n = Final s')) \<and>
      (cudaFlag s = 1 \<and> grid_ok g (edgeTriangles_size s) \<longrightarrow>
         EdgeRepair g s None n \<noteq> Fault \<and>
         (\<exists>sched s'. EdgeRepair (g\<lparr>schedule := sched\<rparr>) s None n = Final s'))"
    using ret [of None, OF _ distinct_all_edges] unfolding c by blast
  have 3: "EdgeRepair g s enc n = Final s' \<longrightarrow>
      triangleEdges s' = triangleEdges s \<and> triangleSubstitute s' = triangleSubstitute s \<and>
      length (edgeTriangles s') = length (edgeTriangles s) \<and>
      (\<forall>pEnC a. enc = Some pEnC \<and> int a \<notin> set (take (nat n) pEnC)
         \<longrightarrow> edgeTriangles s' ! a = edgeTriangles s ! a) \<and>
      (enc = None \<and> (cudaFlag s = 1 \<longrightarrow> grid_ok g (edgeTriangles_size s) \<and> repairable s None n)
         \<longrightarrow> (\<forall>i. 0 \<le> i \<and> i < edgeTriangles_size s \<longrightarrow>
                SingleEdgeRepair i (triangleSubstitute s) (triangleEdges s) (edgeTriangles s)
                  = Some ((edgeTriangles s)[nat i := edgeTriangles s' ! nat i])))"
    by (rule impI) (rule EdgeRepair_final_frame)
  from 1 2 3 show ?thesis by (intro conjI)
qed

text \<open>The mesh after one flip, held on the device, and a grid of two threads.\<close>

definition mesh_flip_device :: mesh where
  "mesh_flip_device = mesh_flip\<lparr>cudaFlag := 1\<rparr>"

definition grid_pair :: grid where
  "grid_pair = \<lparr>nThreadsTotal = 2, schedule = [0, 1, 0, 1]\<rparr>"

lemma repairable_mesh_flip_device: "repairable mesh_flip_device None 0"
  by (simp add: repairable_def processed_edges_def mesh_flip_device_def mesh_flip_def slot_ok_def
      eval_nat_numeral)

theorem EdgeRepair_frame_witness:
  "EdgeRepair grid1 mesh_flip (Some [1, 0]) 1 = Final mesh_flip \<and>
   int 0 \<notin> set (take (nat 1) [1, 0 :: int]) \<and>
   edgeTriangles mesh_flip ! 0 = \<lparr>i2x = 0, i2y = - 1\<rparr> \<and>
   EdgeRepair grid1 mesh_flip None 0
     = Final (mesh_flip\<lparr>edgeTriangles := [\<lparr>i2x = 1, i2y = - 1\<rparr>, \<lparr>i2x = 0, i2y = 1\<rparr>]\<rparr>) \<and>
   SingleEdgeRepair 0 (triangleSubstitute mesh_flip) (triangleEdges mesh_flip)
       (edgeTriangles mesh_flip)
     = Some [\<lparr>i2x = 1, i2y = - 1\<rparr>, \<lparr>i2x = 0, i2y = 1\<rparr>] \<and>
   repairable mesh_flip_device None 0 \<and> cudaFlag mesh_flip_device = 1 \<and>
   grid_ok grid_pair (edgeTriangles_size mesh_flip_device) \<and>
   EdgeRepair grid_pair mesh_flip_device None 0 \<noteq> Fault \<and>
   (\<exists>sched s'. EdgeRepair (grid_pair\<lparr>schedule := sched\<rparr>) mesh_flip_device None 0 = Final s')"
proof -
  have f: "cudaFlag mesh_flip \<noteq> 1" by (simp add: mesh_flip_def)
  have n: "int 0 \<notin> set (take (nat 1) [1, 0 :: int])" by simp
  from EdgeRepair_frame [of mesh_flip "Some [1, 0]" 1 grid1 mesh_flip] EdgeRepair_mesh_flip_list n
  have 1: "edgeTriangles mesh_flip ! 0 = \<lparr>i2x = 0, i2y = - 1\<rparr>" by (simp add: mesh_flip_def)
  have i: "(0 :: int) \<le> 0 \<and> 0 < edgeTriangles_size mesh_flip" by (simp add: mesh_flip_def)
  from EdgeRepair_frame [of mesh_flip None 0 grid1
      "mesh_flip\<lparr>edgeTriangles := [\<lparr>i2x = 1, i2y = - 1\<rparr>, \<lparr>i2x = 0, i2y = 1\<rparr>]\<rparr>"]
    EdgeRepair_mesh_flip f i
  have 2: "SingleEdgeRepair 0 (triangleSubstitute mesh_flip) (triangleEdges mesh_flip)
       (edgeTriangles mesh_flip) = Some [\<lparr>i2x = 1, i2y = - 1\<rparr>, \<lparr>i2x = 0, i2y = 1\<rparr>]"
    by (simp add: mesh_flip_def)
  have d: "cudaFlag mesh_flip_device = 1" by (simp add: mesh_flip_device_def)
  have g: "grid_ok grid_pair (edgeTriangles_size mesh_flip_device)"
    by (simp add: grid_ok_def grid_pair_def mesh_flip_device_def mesh_flip_def)
  from EdgeRepair_frame [of mesh_flip_device None 0 grid_pair mesh_flip_device]
    repairable_mesh_flip_device d g
  have 3: "EdgeRepair grid_pair mesh_flip_device None 0 \<noteq> Fault"
    and 4: "\<exists>sched s'. EdgeRepair (grid_pair\<lparr>schedule := sched\<rparr>) mesh_flip_device None 0 = Final s'"
    by blast+
  from EdgeRepair_mesh_flip_list n 1 EdgeRepair_mesh_flip 2 repairable_mesh_flip_device d g 3 4
  show ?thesis by (intro conjI)
qed


lemma er_result_fields:
  "triangleEdges (er_result s enc n) = triangleEdges s"
  "triangleSubstitute (er_result s enc n) = triangleSubstitute s"
  "edgeTriangles_size (er_result s enc n) = edgeTriangles_size s"
  "cudaFlag (er_result s enc n) = cudaFlag s"
  "length (edgeTriangles (er_result s enc n)) = length (edgeTriangles s)"
  "processed_edges (er_result s enc n) enc n = processed_edges s enc n"
  "er_count (er_result s enc n) enc n = er_count s enc n"
  "contains_edge (er_result s enc n) t e = contains_edge s t e"
  "slot_ok (er_result s enc n) t = slot_ok s t"
  by (simp_all add: er_result_def processed_edges_def er_count_def contains_edge_def slot_ok_def
      split: option.splits)

text \<open>
  The precondition of the idempotence: the substitute of every stale reference of a
  processed edge is a triangle, and has the edge in its edge list.
\<close>

definition substitutes_have_edge :: "mesh \<Rightarrow> int list option \<Rightarrow> int \<Rightarrow> bool" where
  "substitutes_have_edge s enc n \<longleftrightarrow>
     list_all (\<lambda>e. list_all (\<lambda>t. t = - 1 \<or> contains_edge s t e \<or>
                   (triangleSubstitute s ! nat t \<noteq> - 1 \<and> slot_ok s (triangleSubstitute s ! nat t) \<and>
                    contains_edge s (triangleSubstitute s ! nat t) e))
                 [i2x (edgeTriangles s ! nat e), i2y (edgeTriangles s ! nat e)])
       (processed_edges s enc n)"

lemma one_step_settled:
  assumes "slot_ok s t"
    and "t = - 1 \<or> contains_edge s t e \<or>
      (triangleSubstitute s ! nat t \<noteq> - 1 \<and> slot_ok s (triangleSubstitute s ! nat t) \<and>
       contains_edge s (triangleSubstitute s ! nat t) e)"
  shows "slot_ok s (one_step s e t) \<and> (one_step s e t = - 1 \<or> contains_edge s (one_step s e t) e)"
  using assms by (auto simp: one_step_def)

lemma er_result_settled:
  assumes rep: "repairable s enc n" and sub: "substitutes_have_edge s enc n"
  shows "repairable (er_result s enc n) enc n \<and> er_result (er_result s enc n) enc n = er_result s enc n"
proof -
  let ?r = "er_result s enc n"
  have ent: "edgeTriangles ?r ! nat e = repaired s e" if "e \<in> set (processed_edges s enc n)" for e
    using repairable_edge [OF rep that] that by (simp add: er_result_def)
  have settled: "slot_ok s (i2x (repaired s e)) \<and> slot_ok s (i2y (repaired s e)) \<and>
      (i2x (repaired s e) = - 1 \<or> contains_edge s (i2x (repaired s e)) e) \<and>
      (i2y (repaired s e) = - 1 \<or> contains_edge s (i2y (repaired s e)) e)"
    if e: "e \<in> set (processed_edges s enc n)" for e
  proof -
    from sub e have
      x: "i2x (edgeTriangles s ! nat e) = - 1 \<or> contains_edge s (i2x (edgeTriangles s ! nat e)) e \<or>
        (triangleSubstitute s ! nat (i2x (edgeTriangles s ! nat e)) \<noteq> - 1 \<and>
         slot_ok s (triangleSubstitute s ! nat (i2x (edgeTriangles s ! nat e))) \<and>
         contains_edge s (triangleSubstitute s ! nat (i2x (edgeTriangles s ! nat e))) e)"
      and y: "i2y (edgeTriangles s ! nat e) = - 1 \<or> contains_edge s (i2y (edgeTriangles s ! nat e)) e \<or>
        (triangleSubstitute s ! nat (i2y (edgeTriangles s ! nat e)) \<noteq> - 1 \<and>
         slot_ok s (triangleSubstitute s ! nat (i2y (edgeTriangles s ! nat e))) \<and>
         contains_edge s (triangleSubstitute s ! nat (i2y (edgeTriangles s ! nat e))) e)"
      by (simp_all add: substitutes_have_edge_def list_all_iff)
    from repairable_edge [OF rep e] have ok: "slot_ok s (i2x (edgeTriangles s ! nat e))"
      "slot_ok s (i2y (edgeTriangles s ! nat e))" by simp_all
    from one_step_settled [OF ok(1) x] one_step_settled [OF ok(2) y]
    show ?thesis by (simp add: repaired_def)
  qed
  have r1: "repairable ?r enc n"
    unfolding repairable_def er_result_fields list_all_iff
  proof (intro conjI ballI)
    show "case enc of None \<Rightarrow> True | Some pEnC \<Rightarrow> nat n \<le> length pEnC"
      using rep by (simp add: repairable_def)
  next
    fix e assume e: "e \<in> set (processed_edges s enc n)"
    from repairable_edge [OF rep e] show "0 \<le> e" "e < int (length (edgeTriangles s))"
      by linarith+
    from settled [OF e] show "slot_ok s (i2x (edgeTriangles ?r ! nat e))"
      "slot_ok s (i2y (edgeTriangles ?r ! nat e))" by (simp_all add: ent [OF e])
  qed
  have same: "repaired ?r e = repaired s e" if e: "e \<in> set (processed_edges s enc n)" for e
    using settled [OF e]
    by (auto simp: repaired_def [of ?r] ent [OF e] one_step_def er_result_fields)
  have "edgeTriangles (er_result ?r enc n) = edgeTriangles ?r"
  proof (rule nth_equalityI)
    show "length (edgeTriangles (er_result ?r enc n)) = length (edgeTriangles ?r)"
      by (simp add: er_result_fields)
  next
    fix a assume "a < length (edgeTriangles (er_result ?r enc n))"
    then have a: "a < length (edgeTriangles s)" by (simp add: er_result_fields)
    show "edgeTriangles (er_result ?r enc n) ! a = edgeTriangles ?r ! a"
    proof (cases "int a \<in> set (processed_edges s enc n)")
      case True
      have "edgeTriangles (er_result ?r enc n) ! a = repaired ?r (int a)"
        using a True by (simp add: er_result_def [of ?r] er_result_fields)
      also have "\<dots> = repaired s (int a)" by (rule same [OF True])
      also have "\<dots> = edgeTriangles ?r ! a" using ent [OF True] by simp
      finally show ?thesis .
    next
      case False
      then show ?thesis using a by (simp add: er_result_def [of ?r] er_result_fields)
    qed
  qed
  then have "er_result ?r enc n = ?r" by (simp add: er_result_def [of ?r])
  with r1 show ?thesis by simp
qed

text \<open>
  Claim C9. \<^verbatim>\<open>SingleEdgeRepair\<close> changes nothing when every slot of the entry of edge \<open>i\<close> is
  the sentinel or refers to a triangle with \<open>i\<close> in its edge list. Hence, when the
  substitute of every stale reference has the repaired edge in its edge list, a second
  pass changes nothing: the table after two passes is the table after one.
\<close>

theorem EdgeRepair_idempotent:
  "(\<forall>i pTsub pTe pEt pEt'.
      SingleEdgeRepair i pTsub pTe pEt = Some pEt' \<and>
      (\<forall>t \<in> {i2x (pEt ! nat i), i2y (pEt ! nat i)}.
         t = - 1 \<or> i = i3x (pTe ! nat t) \<or> i = i3y (pTe ! nat t) \<or> i = i3z (pTe ! nat t))
      \<longrightarrow> pEt' = pEt) \<and>
   (\<forall>g g' s enc n s1 s2.
      repairable s enc n \<and> substitutes_have_edge s enc n \<and>
      (enc \<noteq> None \<longrightarrow> distinct (processed_edges s enc n)) \<and>
      (cudaFlag s = 1 \<longrightarrow> grid_ok g (er_count s enc n) \<and> grid_ok g' (er_count s enc n)) \<and>
      EdgeRepair g s enc n = Final s1 \<and> EdgeRepair g' s1 enc n = Final s2
      \<longrightarrow> s2 = s1)"
proof (intro conjI allI impI)
  fix i pTsub pTe pEt pEt'
  assume h: "SingleEdgeRepair i pTsub pTe pEt = Some pEt' \<and>
      (\<forall>t \<in> {i2x (pEt ! nat i), i2y (pEt ! nat i)}.
         t = - 1 \<or> i = i3x (pTe ! nat t) \<or> i = i3y (pTe ! nat t) \<or> i = i3z (pTe ! nat t))"
  then obtain et et' where et: "rd pEt i = Some et"
    and et': "repair_entry i pTsub pTe et = Some et'" and p: "pEt' = pEt[nat i := et']"
    by (auto simp: SingleEdgeRepair_eq split: option.splits)
  from et have i: "nat i < length pEt" "pEt ! nat i = et" by (auto simp: rd_Some_iff)
  from et' obtain t1 t2 where t: "repair_slot i pTsub pTe (i2x et) = Some t1"
    "repair_slot i pTsub pTe (i2y et) = Some t2" "et' = et\<lparr>i2x := t1, i2y := t2\<rparr>"
    by (auto simp: repair_entry_def split: option.splits)
  from h i have cx: "i2x et = - 1 \<or> i = i3x (pTe ! nat (i2x et)) \<or> i = i3y (pTe ! nat (i2x et)) \<or>
      i = i3z (pTe ! nat (i2x et))"
    and cy: "i2y et = - 1 \<or> i = i3x (pTe ! nat (i2y et)) \<or> i = i3y (pTe ! nat (i2y et)) \<or>
      i = i3z (pTe ! nat (i2y et))" by simp_all
  have "t1 = i2x et" using t(1) cx
    by (auto simp: repair_slot_def rd_def split: if_splits option.splits)
  moreover have "t2 = i2y et" using t(2) cy
    by (auto simp: repair_slot_def rd_def split: if_splits option.splits)
  ultimately have "et' = et" using t(3) by simp
  with p i show "pEt' = pEt" by (metis list_update_id)
next
  fix g g' s enc n s1 s2
  assume h: "repairable s enc n \<and> substitutes_have_edge s enc n \<and>
      (enc \<noteq> None \<longrightarrow> distinct (processed_edges s enc n)) \<and>
      (cudaFlag s = 1 \<longrightarrow> grid_ok g (er_count s enc n) \<and> grid_ok g' (er_count s enc n)) \<and>
      EdgeRepair g s enc n = Final s1 \<and> EdgeRepair g' s1 enc n = Final s2"
  then have rep: "repairable s enc n" and sub: "substitutes_have_edge s enc n" by simp_all
  have d: "distinct (processed_edges s enc n)"
    using h distinct_all_edges by (cases enc) auto
  let ?r = "er_result s enc n"
  have result: "s' = er_result u enc n"
    if "repairable u enc n" "distinct (processed_edges u enc n)"
      "cudaFlag u = 1 \<longrightarrow> grid_ok k (er_count u enc n)" "EdgeRepair k u enc n = Final s'"
    for k u s'
  proof (cases "cudaFlag u = 1")
    case True
    with that(3) have "grid_ok k (er_count u enc n)" by simp
    from EdgeRepair_device_result(1) [OF that(1,2) True this] that(4) show ?thesis by simp
  next
    case False
    from EdgeRepair_host_result [OF that(1,2) False, of k] that(4) show ?thesis by simp
  qed
  have s1: "s1 = ?r" using result [OF rep d, of g s1] h by simp
  from er_result_settled [OF rep sub] have r1: "repairable ?r enc n"
    and fx: "er_result ?r enc n = ?r" by simp_all
  have "s2 = er_result ?r enc n"
    using result [OF r1, of g' s2] d h s1 by (simp add: er_result_fields)
  with fx s1 show "s2 = s1" by simp
qed

theorem EdgeRepair_idempotent_witness:
  "SingleEdgeRepair 1 (triangleSubstitute mesh_flip) (triangleEdges mesh_flip)
       (edgeTriangles mesh_flip) = Some (edgeTriangles mesh_flip) \<and>
   repairable mesh_flip None 0 \<and> substitutes_have_edge mesh_flip None 0 \<and>
   EdgeRepair grid1 mesh_flip None 0
     = Final (mesh_flip\<lparr>edgeTriangles := [\<lparr>i2x = 1, i2y = - 1\<rparr>, \<lparr>i2x = 0, i2y = 1\<rparr>]\<rparr>) \<and>
   EdgeRepair grid1 (mesh_flip\<lparr>edgeTriangles := [\<lparr>i2x = 1, i2y = - 1\<rparr>, \<lparr>i2x = 0, i2y = 1\<rparr>]\<rparr>)
       None 0
     = Final (mesh_flip\<lparr>edgeTriangles := [\<lparr>i2x = 1, i2y = - 1\<rparr>, \<lparr>i2x = 0, i2y = 1\<rparr>]\<rparr>)"
proof -
  let ?s1 = "mesh_flip\<lparr>edgeTriangles := [\<lparr>i2x = 1, i2y = - 1\<rparr>, \<lparr>i2x = 0, i2y = 1\<rparr>]\<rparr>"
  have a: "SingleEdgeRepair 1 (triangleSubstitute mesh_flip) (triangleEdges mesh_flip)
       (edgeTriangles mesh_flip) = Some (edgeTriangles mesh_flip)"
    by (simp add: mesh_flip_def SingleEdgeRepair_eq rd_def repair_entry_def repair_slot_def)
  have sub: "substitutes_have_edge mesh_flip None 0"
    by (simp add: substitutes_have_edge_def processed_edges_def mesh_flip_def slot_ok_def
        contains_edge_def eval_nat_numeral)
  have second: "EdgeRepair grid1 ?s1 None 0 = Final ?s1"
    by (simp add: EdgeRepair_def mesh_flip_def for_loop.simps SingleEdgeRepair_eq rd_def
        repair_entry_def repair_slot_def of_option_def)
  have c: "cudaFlag mesh_flip = 1 \<longrightarrow>
      grid_ok grid1 (er_count mesh_flip None 0) \<and> grid_ok grid1 (er_count mesh_flip None 0)"
    by (simp add: mesh_flip_def)
  have n: "None \<noteq> None \<longrightarrow> distinct (processed_edges mesh_flip None 0)" by simp
  from EdgeRepair_idempotent [THEN conjunct2, rule_format, of mesh_flip None 0 grid1 grid1 ?s1 ?s1]
    repairable_mesh_flip sub n c EdgeRepair_mesh_flip second
  have "?s1 = ?s1" by blast
  with a repairable_mesh_flip sub EdgeRepair_mesh_flip second show ?thesis by simp
qed

section \<open>Verification: host loops as sequences of items\<close>

lemma seq_items_append:
  "seq_items (xs @ ys) m = (case seq_items xs m of None \<Rightarrow> None | Some m1 \<Rightarrow> seq_items ys m1)"
  by (induction xs arbitrary: m) (auto split: option.splits)

lemma for_loop_seq:
  assumes "\<And>j m. lo \<le> j \<Longrightarrow> j < hi \<Longrightarrow> body (int j) m = seq_items (itss j) m"
  shows "for_loop body (int lo) (int hi) m = seq_items (concat (map itss [lo..<hi])) m"
  using assms
proof (induction "hi - lo" arbitrary: lo m rule: less_induct)
  case less
  show ?case
  proof (cases "lo < hi")
    case False
    then have e: "[lo..<hi] = []" by simp
    have "for_loop body (int lo) (int hi) m = Some m"
      using False by (subst for_loop.simps) simp
    then show ?thesis unfolding e by simp
  next
    case True
    have upt: "[lo..<hi] = lo # [Suc lo..<hi]" using True by (simp add: upt_conv_Cons)
    have ih: "\<And>m1. for_loop body (int (Suc lo)) (int hi) m1
        = seq_items (concat (map itss [Suc lo..<hi])) m1"
      by (rule less.hyps) (use True less.prems in simp_all)
    have ih': "\<And>m1. for_loop body (int lo + 1) (int hi) m1
        = seq_items (concat (map itss [Suc lo..<hi])) m1"
      using ih by (simp add: add.commute)
    have "for_loop body (int lo) (int hi) m =
        (case body (int lo) m of None \<Rightarrow> None | Some m1 \<Rightarrow> for_loop body (int lo + 1) (int hi) m1)"
      using True by (subst for_loop.simps) simp
    then show ?thesis
      using less.prems [of lo m] True
      by (simp add: upt ih' seq_items_append split: option.splits)
  qed
qed

lemma for_loop_items:
  assumes "\<And>j m. lo \<le> j \<Longrightarrow> j < hi \<Longrightarrow> body (int j) m = seq_items [its j] m"
  shows "for_loop body (int lo) (int hi) m = seq_items (map its [lo..<hi]) m"
proof -
  have "concat (map (\<lambda>j. [its j]) [lo..<hi]) = map its [lo..<hi]"
    by (induction "[lo..<hi]" arbitrary: lo) (simp_all add: concat_map_singleton)
  with for_loop_seq [of lo hi body "\<lambda>j. [its j]" m] assms show ?thesis by simp
qed

lemma wr_int: "wr m (int k) v = (if k < length m then Some (m[k := v]) else None)"
  by (simp add: wr_def)

lemma rd_int: "rd m (int k) = (if k < length m then Some (m ! k) else None)"
  by (simp add: rd_def)

lemma concat_map_product:
  "concat (map (\<lambda>n. map (\<lambda>i. f (n, i)) ys) xs) = map f (List.product xs ys)"
  by (induction xs) simp_all

section \<open>Verification: Array::SetToValue\<close>

text \<open>Setting element \<open>i\<close> of dimension \<open>n\<close> is one item.\<close>

definition sv_item :: "nat \<Rightarrow> 'a \<Rightarrow> nat \<times> nat \<Rightarrow> nat \<times> ('a \<Rightarrow> 'a option)" where
  "sv_item R val w = (snd w + fst w * R, \<lambda>c. Some val)"

lemma sv_host_seq:
  assumes cap: "e \<le> R" "D * R \<le> 2 ^ 32"
  shows "for_loop (\<lambda>n. for_loop (\<lambda>i h. wr h ((i + n * int R) mod 2 ^ 32) val) (int s) (int e))
           0 (int D) m
         = seq_items (map (sv_item R val) (List.product [0..<D] [s..<e])) m"
proof -
  have inner: "for_loop (\<lambda>i h. wr h ((i + int n * int R) mod 2 ^ 32) val) (int s) (int e) h
      = seq_items (map (\<lambda>i. sv_item R val (n, i)) [s..<e]) h" if n: "n < D" for n h
  proof (rule for_loop_items)
    fix j m assume j: "s \<le> j" "j < e"
    have "j + n * R < R + n * R" using j cap by simp
    also have "\<dots> \<le> D * R" using n by (metis Suc_leI mult_Suc mult_le_mono1)
    finally have "int j + int n * int R < 2 ^ 32" using cap(2)
      by (metis (mono_tags, opaque_lifting) less_le_trans of_nat_add of_nat_less_iff of_nat_mult
          of_nat_numeral of_nat_power)
    moreover have "0 \<le> int j + int n * int R" by simp
    ultimately have "(int j + int n * int R) mod 2 ^ 32 = int (j + n * R)" by simp
    then have "wr m ((int j + int n * int R) mod 2 ^ 32) val = wr m (int (j + n * R)) val"
      by (simp only:)
    also have "\<dots> = seq_items [sv_item R val (n, j)] m"
      unfolding wr_int by (simp add: sv_item_def)
    finally show "wr m ((int j + int n * int R) mod 2 ^ 32) val
        = seq_items [sv_item R val (n, j)] m" .
  qed
  have "for_loop (\<lambda>n. for_loop (\<lambda>i h. wr h ((i + n * int R) mod 2 ^ 32) val) (int s) (int e))
           (int 0) (int D) m
      = seq_items (concat (map (\<lambda>n. map (\<lambda>i. sv_item R val (n, i)) [s..<e]) [0..<D])) m"
  proof (rule for_loop_seq)
    fix j m assume "j < D"
    then show "for_loop (\<lambda>i h. wr h ((i + int j * int R) mod 2 ^ 32) val) (int s) (int e) m
        = seq_items (map (\<lambda>i. sv_item R val (j, i)) [s..<e]) m" by (rule inner)
  qed
  then show ?thesis by (simp add: concat_map_product)
qed


lemma sv_index:
  assumes "i < e" "e \<le> R" "n < D" "D * R \<le> 2 ^ 32"
  shows "nat ((int i + int n * int R) mod 2 ^ 32) = i + n * R"
proof -
  have "i + n * R < R + n * R" using assms by simp
  also have "\<dots> \<le> D * R" using assms(3) by (metis Suc_leI mult_Suc mult_le_mono1)
  finally have "i + n * R < 2 ^ 32" using assms(4) by simp
  then have "int (i + n * R) < 2 ^ 32"
    by (metis of_nat_less_iff of_nat_numeral of_nat_power)
  then have "int (i + n * R) mod 2 ^ 32 = int (i + n * R)" by simp
  then have "nat (int (i + n * R) mod 2 ^ 32) = i + n * R" by (simp only: nat_int)
  moreover have "int (i + n * R) = int i + int n * int R" by simp
  ultimately show ?thesis by (simp only:)
qed

lemma u32_id:
  assumes "k < 2 ^ 32"
  shows "int k mod 2 ^ 32 = int k"
proof -
  from assms have "int k < 2 ^ 32" by (metis of_nat_less_iff of_nat_numeral of_nat_power)
  then show ?thesis by simp
qed

text \<open>The inner loop of a thread of \<^verbatim>\<open>devSetToValue\<close>, then the whole thread.\<close>

lemma sv_while_solo:
  fixes val :: 'a and s tid :: nat
  assumes G: "0 < G" and bound: "e + G \<le> 2 ^ 32" and cap: "e \<le> R" "D * R \<le> 2 ^ 32"
    and n: "n < D"
  defines "p \<equiv> devSetToValue G val (int s) (int e) (int R) (int D) tid"
  shows "seq_items (map (\<lambda>i. sv_item R val (n, i)) (stride G e i)) m = Some m1 \<Longrightarrow>
     (\<lambda>i. i + n * R) ` set (stride G e i) \<subseteq> F \<Longrightarrow>
     sv_pc l = SV_while \<Longrightarrow> sv_n l = int n \<Longrightarrow> sv_i l = int i \<Longrightarrow>
     (\<And>l'. sv_pc l' = SV_for \<Longrightarrow> sv_n l' = int n + 1 \<Longrightarrow> solo F p l' m1 m') \<Longrightarrow>
     solo F p l m m'"
proof (induction "e - i" arbitrary: i l m rule: less_induct)
  case less
  show ?case
  proof (cases "i < e")
    case False
    then have "stride G e i = []" by (simp add: stride_Nil)
    with less.prems(1) have m1: "m1 = m" by simp
    define l1 where "l1 = l\<lparr>sv_n := sv_n l + 1, sv_pc := SV_for\<rparr>"
    have "\<not> int i < int e" using False by simp
    then have pl: "p l = Tau l1" using less.prems(3,5) by (simp add: p_def devSetToValue_def l1_def)
    have "solo F p l1 m1 m'" by (rule less.prems(6)) (simp_all add: l1_def less.prems(4))
    with pl show ?thesis unfolding m1 by (rule solo_Tau [where p = p and l = l])
  next
    case True
    then have st: "stride G e i = i # stride G e (i + G)" using G by (simp add: stride_Cons)
    from less.prems(1) have len: "i + n * R < length m"
      and rest: "seq_items (map (\<lambda>i. sv_item R val (n, i)) (stride G e (i + G)))
          (m[i + n * R := val]) = Some m1"
      by (auto simp: st sv_item_def split: if_splits)
    have inF: "i + n * R \<in> F" using less.prems(2) st by auto
    define l1 where "l1 = l\<lparr>sv_pc := SV_store\<rparr>"
    define l2 where "l2 = l1\<lparr>sv_pc := SV_incr\<rparr>"
    define l3 where "l3 = l2\<lparr>sv_i := int (i + G), sv_pc := SV_while\<rparr>"
    have "int i < int e" using True by simp
    then have p0: "p l = Tau l1" using less.prems(3,5) by (simp add: p_def devSetToValue_def l1_def)
    have idx: "nat ((sv_i l1 + sv_n l1 * int R) mod 2 ^ 32) = i + n * R"
      using sv_index [OF True cap(1) n cap(2)] less.prems(4,5) by (simp add: l1_def)
    have p1: "p l1 = Access (i + n * R) (\<lambda>c. (l2, val))"
      using idx by (simp add: p_def devSetToValue_def l1_def l2_def)
    have "i + G < 2 ^ 32" using True bound by simp
    from u32_id [OF this] have "(sv_i l2 + int G) mod 2 ^ 32 = int (i + G)"
      using less.prems(5) by (simp add: l2_def l1_def)
    then have p2: "p l2 = Tau l3"
      by (simp add: p_def devSetToValue_def l3_def l2_def l1_def)
    have s3: "solo F p l3 (m[i + n * R := val]) m'"
    proof (rule less.hyps [where i = "i + G"])
      show "e - (i + G) < e - i" using True G by simp
      show "seq_items (map (\<lambda>i. sv_item R val (n, i)) (stride G e (i + G)))
          (m[i + n * R := val]) = Some m1" by (fact rest)
      show "(\<lambda>i. i + n * R) ` set (stride G e (i + G)) \<subseteq> F" using less.prems(2) st by auto
      show "sv_pc l3 = SV_while" "sv_i l3 = int (i + G)" by (simp_all add: l3_def)
      show "sv_n l3 = int n" using less.prems(4) by (simp add: l3_def l2_def l1_def)
      show "\<And>l'. sv_pc l' = SV_for \<Longrightarrow> sv_n l' = int n + 1 \<Longrightarrow> solo F p l' m1 m'"
        by (rule less.prems(6))
    qed
    have s2: "solo F p l2 (m[i + n * R := val]) m'"
      using p2 s3 by (rule solo_Tau [where p = p and l = l2])
    have s1: "solo F p l1 m m'"
    proof (rule solo_Access [where p = p and l = l1, OF p1 inF len])
      show "(l2, val) = (l2, val)" by simp
      show "solo F p l2 (m[i + n * R := val]) m'" by (fact s2)
    qed
    from p0 s1 show ?thesis by (rule solo_Tau [where p = p and l = l])
  qed
qed

lemma sv_for_solo:
  fixes val :: 'a and s tid :: nat
  assumes G: "0 < G" and bound: "e + G \<le> 2 ^ 32" "s + G \<le> 2 ^ 32"
    and cap: "e \<le> R" "D * R \<le> 2 ^ 32" and tid: "tid < G"
  defines "p \<equiv> devSetToValue G val (int s) (int e) (int R) (int D) tid"
  shows "seq_items (map (sv_item R val) (List.product [n0..<D] (stride G e (tid + s)))) m = Some m' \<Longrightarrow>
     fst ` sv_item R val ` set (List.product [n0..<D] (stride G e (tid + s))) \<subseteq> F \<Longrightarrow>
     sv_pc l = SV_for \<Longrightarrow> sv_n l = int n0 \<Longrightarrow> solo F p l m m'"
proof (induction "D - n0" arbitrary: n0 l m rule: less_induct)
  case less
  show ?case
  proof (cases "n0 < D")
    case False
    then have "[n0..<D] = []" by simp
    with less.prems(1) have "m' = m" by simp
    moreover have "\<not> int n0 < int D" using False by simp
    then have "p l = Halt" using less.prems(3,4) by (simp add: p_def devSetToValue_def)
    ultimately show ?thesis by (simp add: solo_Halt)
  next
    case True
    have upt: "[n0..<D] = n0 # [Suc n0..<D]" using True by (simp add: upt_conv_Cons)
    have prod: "List.product [n0..<D] (stride G e (tid + s))
        = map (Pair n0) (stride G e (tid + s)) @ List.product [Suc n0..<D] (stride G e (tid + s))"
      by (simp add: upt)
    from less.prems(1) obtain m1 where
      inner: "seq_items (map (\<lambda>i. sv_item R val (n0, i)) (stride G e (tid + s))) m = Some m1"
      and rest: "seq_items (map (sv_item R val)
          (List.product [Suc n0..<D] (stride G e (tid + s)))) m1 = Some m'"
      by (auto simp: prod seq_items_append comp_def split: option.splits)
    define l1 where "l1 = l\<lparr>sv_i := int (tid + s), sv_pc := SV_while\<rparr>"
    have "tid + s < 2 ^ 32" using tid bound(2) by simp
    from u32_id [OF this] have "(int tid + int s) mod 2 ^ 32 = int (tid + s)" by simp
    moreover have "int n0 < int D" using True by simp
    ultimately have p0: "p l = Tau l1"
      using less.prems(3,4) by (simp add: p_def devSetToValue_def l1_def)
    have "solo F p l1 m m'"
      unfolding p_def
    proof (rule sv_while_solo [OF G bound(1) cap True inner])
      show "(\<lambda>i. i + n0 * R) ` set (stride G e (tid + s)) \<subseteq> F"
        using less.prems(2) by (force simp: prod sv_item_def)
      show "sv_pc l1 = SV_while" "sv_i l1 = int (tid + s)" by (simp_all add: l1_def)
      show "sv_n l1 = int n0" using less.prems(4) by (simp add: l1_def)
    next
      fix l' :: sv_local assume l': "sv_pc l' = SV_for" "sv_n l' = int n0 + 1"
      show "solo F (devSetToValue G val (int s) (int e) (int R) (int D) tid) l' m1 m'"
        unfolding p_def [symmetric]
      proof (rule less.hyps)
        show "D - Suc n0 < D - n0" using True by simp
        show "seq_items (map (sv_item R val)
          (List.product [Suc n0..<D] (stride G e (tid + s)))) m1 = Some m'" by (fact rest)
        show "fst ` sv_item R val ` set (List.product [Suc n0..<D] (stride G e (tid + s))) \<subseteq> F"
          using less.prems(2) by (auto simp: prod)
        show "sv_pc l' = SV_for" by (fact l'(1))
        show "sv_n l' = int (Suc n0)" using l'(2) by simp
      qed
    qed
    with p0 show ?thesis by (rule solo_Tau [where p = p and l = l])
  qed
qed


text \<open>Distinct elements of the array have distinct subscripts.\<close>

lemma sv_addr_inj:
  fixes i i' n n' R :: nat
  assumes "i < R" "i' < R" "i + n * R = i' + n' * R"
  shows "i = i' \<and> n = n'"
proof -
  have "(i + n * R) mod R = i" "(i' + n' * R) mod R = i'" using assms(1,2) by simp_all
  with assms(3) have i: "i = i'" by simp
  with assms(3) have "n * R = n' * R" by simp
  moreover have "0 < R" using assms(1) by simp
  ultimately have "n = n'" by simp
  with i show ?thesis by simp
qed

lemma sv_items_distinct:
  assumes "e \<le> R"
  shows "distinct (map (fst \<circ> sv_item R val) (List.product [0..<D] [s..<e]))"
proof -
  have "inj_on (fst \<circ> sv_item R val) (set (List.product [0..<D] [s..<e]))"
  proof (rule inj_onI)
    fix w w' :: "nat \<times> nat"
    assume w: "w \<in> set (List.product [0..<D] [s..<e])"
      and w': "w' \<in> set (List.product [0..<D] [s..<e])"
      and eq: "(fst \<circ> sv_item R val) w = (fst \<circ> sv_item R val) w'"
    have "snd w < R" "snd w' < R" using w w' assms by auto
    moreover have "snd w + fst w * R = snd w' + fst w' * R" using eq by (simp add: sv_item_def)
    ultimately have "snd w = snd w' \<and> fst w = fst w'" by (rule sv_addr_inj)
    then show "w = w'" by (simp add: prod_eq_iff)
  qed
  moreover have "distinct (List.product [0..<D] [s..<e])" by (simp add: distinct_product)
  ultimately show ?thesis by (simp add: distinct_map)
qed


text \<open>The assignments of a range within the capacity are all inside the buffer.\<close>

lemma sv_host_exists:
  assumes cap: "e \<le> R" and len: "length m0 = D * R"
  shows "\<exists>m'. seq_items (map (sv_item R val) (List.product [0..<D] [s..<e])) m0 = Some m'"
proof (rule seq_items_exists)
  show "distinct (map fst (map (sv_item R val) (List.product [0..<D] [s..<e])))"
    using sv_items_distinct [OF cap, of val D s] by simp
  show "\<forall>it \<in> set (map (sv_item R val) (List.product [0..<D] [s..<e])).
      fst it < length m0 \<and> snd it (m0 ! fst it) \<noteq> None"
  proof
    fix it assume "it \<in> set (map (sv_item R val) (List.product [0..<D] [s..<e]))"
    then obtain n i where it: "it = sv_item R val (n, i)" and n: "n < D" and i: "i < e"
      by auto
    have "i + n * R < R + n * R" using i cap by simp
    also have "\<dots> \<le> D * R" using n by (metis Suc_leI mult_Suc mult_le_mono1)
    finally show "fst it < length m0 \<and> snd it (m0 ! fst it) \<noteq> None"
      by (simp add: it sv_item_def len)
  qed
qed

text \<open>The grid-stride loops of the threads share out the range.\<close>

lemma stride_offset_partition:
  assumes G: "0 < G"
  shows "set [s..<e] = (\<Union>k \<in> {..<G}. set (stride G e (k + s)))"
    and "\<forall>j < G. \<forall>k < G. j \<noteq> k \<longrightarrow> set (stride G e (j + s)) \<inter> set (stride G e (k + s)) = {}"
proof -
  show "set [s..<e] = (\<Union>k \<in> {..<G}. set (stride G e (k + s)))"
  proof (intro set_eqI iffI)
    fix i assume "i \<in> set [s..<e]"
    then have i: "s \<le> i" "i < e" by simp_all
    define k where "k = (i - s) mod G"
    have kG: "k < G" using G by (simp add: k_def)
    have "k \<le> i - s" by (simp add: k_def)
    then have le: "k + s \<le> i" using i(1) by simp
    have "(k + s) mod G = ((i - s) + s) mod G" unfolding k_def by (rule mod_add_left_eq)
    then have "(k + s) mod G = i mod G" using i(1) by simp
    then have "i \<in> set (stride G e (k + s))" using G le i(2) by (simp add: set_stride)
    with kG show "i \<in> (\<Union>k \<in> {..<G}. set (stride G e (k + s)))" by blast
  next
    fix i assume "i \<in> (\<Union>k \<in> {..<G}. set (stride G e (k + s)))"
    then show "i \<in> set [s..<e]" by (auto simp: set_stride)
  qed
  have one: "j = k" if j: "j < G" and k: "k < G" and le: "j \<le> k"
    and eq: "(j + s) mod G = (k + s) mod G" for j k
  proof -
    have "j + s \<le> k + s" using le by simp
    with eq have "G dvd (k + s) - (j + s)" by (metis mod_eq_dvd_iff_nat)
    then have dv: "G dvd k - j" by simp
    show ?thesis
    proof (rule ccontr)
      assume "j \<noteq> k"
      then have "0 < k - j" using le by simp
      with dv have "G \<le> k - j" by (rule dvd_imp_le)
      with k show False by simp
    qed
  qed
  show "\<forall>j < G. \<forall>k < G. j \<noteq> k \<longrightarrow> set (stride G e (j + s)) \<inter> set (stride G e (k + s)) = {}"
  proof (intro allI impI)
    fix j k assume j: "j < G" and k: "k < G" and ne: "j \<noteq> k"
    show "set (stride G e (j + s)) \<inter> set (stride G e (k + s)) = {}"
    proof (rule ccontr)
      assume "set (stride G e (j + s)) \<inter> set (stride G e (k + s)) \<noteq> {}"
      then obtain i where "i \<in> set (stride G e (j + s))" "i \<in> set (stride G e (k + s))" by blast
      then have eq: "(j + s) mod G = (k + s) mod G" by (simp add: set_stride)
      show False
      proof (cases "j \<le> k")
        case True
        from one [OF j k True eq] ne show False by simp
      next
        case False
        then have "k \<le> j" by simp
        from one [OF k j this eq [symmetric]] ne show False by simp
      qed
    qed
  qed
qed

text \<open>
  The launch of \<^verbatim>\<open>devSetToValue\<close>: no schedule makes it fail, every complete schedule leaves
  what the host loops leave, and some schedule is complete.
\<close>

lemma sv_launch:
  fixes val :: 'a
  assumes G: "0 < G" and bound: "e + G \<le> 2 ^ 32" "s + G \<le> 2 ^ 32"
    and cap: "e \<le> R" "D * R \<le> 2 ^ 32"
    and host: "seq_items (map (sv_item R val) (List.product [0..<D] [s..<e])) m0 = Some m'"
  defines "kern \<equiv> devSetToValue G val (int s) (int e) (int R) (int D)"
  shows "launch kern sv_init G sched m0 \<noteq> Fault"
    and "launch kern sv_init G sched m0 = Final m \<Longrightarrow> m = m'"
    and "\<exists>sched'. launch kern sv_init G sched' m0 = Final m'"
proof -
  define work where "work k = List.product [0..<D] (stride G e (k + s))" for k
  note part = stride_offset_partition [OF G, where s = s and e = e]
  have dist: "distinct (map (fst \<circ> sv_item R val) (List.product [0..<D] [s..<e]))"
    by (rule sv_items_distinct [OF cap(1)])
  have cover: "set (List.product [0..<D] [s..<e]) = (\<Union>k \<in> {..<G}. set (work k))"
  proof -
    have "set (List.product [0..<D] [s..<e]) = set [0..<D] \<times> set [s..<e]" by simp
    also have "\<dots> = set [0..<D] \<times> (\<Union>k \<in> {..<G}. set (stride G e (k + s)))"
      by (simp only: part(1))
    also have "\<dots> = (\<Union>k \<in> {..<G}. set (work k))" by (auto simp: work_def)
    finally show ?thesis .
  qed
  have dwork: "\<forall>k < G. distinct (work k)"
    by (simp add: work_def distinct_product distinct_stride)
  have disj: "\<forall>j < G. \<forall>k < G. j \<noteq> k \<longrightarrow> set (work j) \<inter> set (work k) = {}"
  proof (intro allI impI)
    fix j k assume "j < G" "k < G" "j \<noteq> k"
    with part(2) have "set (stride G e (j + s)) \<inter> set (stride G e (k + s)) = {}" by simp
    then show "set (work j) \<inter> set (work k) = {}" by (simp add: work_def Times_Int_Times)
  qed
  have solo: "solo (fst ` sv_item R val ` set (work k)) (kern k) (sv_init k) m0 M"
    if k: "k < G" and M: "seq_items (map (sv_item R val) (work k)) m0 = Some M" for k M
    unfolding kern_def
  proof (rule sv_for_solo [OF G bound cap k, where ?n0.0 = 0])
    show "seq_items (map (sv_item R val) (List.product [0..<D] (stride G e (k + s)))) m0 = Some M"
      using M by (simp add: work_def)
    show "fst ` sv_item R val ` set (List.product [0..<D] (stride G e (k + s)))
        \<subseteq> fst ` sv_item R val ` set (work k)" by (simp add: work_def)
    show "sv_pc (sv_init k) = SV_for" "sv_n (sv_init k) = int 0" by (simp_all add: sv_init_def)
  qed
  note gl = grid_launch_seq [where its = "sv_item R val" and work = work and kern = kern
      and init = sv_init, OF host dist cover dwork disj solo]
  show "launch kern sv_init G sched m0 \<noteq> Fault" by (rule gl(1))
  show "launch kern sv_init G sched m0 = Final m \<Longrightarrow> m = m'" by (rule gl(2))
  show "\<exists>sched'. launch kern sv_init G sched' m0 = Final m'" by (rule gl(3))
qed


section \<open>Verification: the claim on SetToValue\<close>


definition array6 :: "int Array" where
  "array6 = \<lparr>nDims = 2, size_A = 2, realSize = 3, cudaFlag_A = 1, hostVec = [],
     deviceVec = [1, 2, 3, 4, 5, 6]\<rparr>"

definition grid2 :: grid where
  "grid2 = \<lparr>nThreadsTotal = 2, schedule = [0, 1, 0, 1, 0, 1, 0, 1, 0, 1, 0, 1, 0, 1, 0, 1, 0, 1, 0, 1]\<rparr>"

lemma all_less_2: "(\<forall>k < (2 :: nat). P k) \<longleftrightarrow> P 0 \<and> P 1"
  by (auto simp: less_2_cases_iff)

lemma upt_0_2: "[0..<2] = [0, 1]"
  by (simp add: upt_rec)

lemma SetToValue_array6:
  "SetToValue grid2 array6 9 1 3 = Final (array6\<lparr>deviceVec := [1, 9, 9, 4, 9, 9]\<rparr>)"
  by (simp add: SetToValue_def array6_def grid2_def launch_def grid_step_def thread_step_def
      devSetToValue_def sv_init_def all_less_2 upt_0_2)


text \<open>
  Claim C6, as stated for every index range, fails on the device path. The kernel adds
  the thread number to \<^verbatim>\<open>startIndex\<close> in \<^verbatim>\<open>unsigned int\<close>: for \<open>startIndex = 2^32 - 1\<close> and
  \<open>endIndex = 2\<close> thread \<open>1\<close> of a grid of two starts at \<open>i = 0\<close>, which is below \<open>endIndex\<close>,
  and writes the value to element \<open>0\<close> of both dimensions, an index below \<open>startIndex\<close>. The
  host loop, on the same buffer, writes nothing.
\<close>

definition array6_host :: "int Array" where
  "array6_host = \<lparr>nDims = 2, size_A = 2, realSize = 3, cudaFlag_A = 0,
     hostVec = [1, 2, 3, 4, 5, 6], deviceVec = []\<rparr>"


section \<open>Verification: the selection flags\<close>

definition sl_flag :: "int list \<Rightarrow> int \<Rightarrow> nat \<Rightarrow> int" where
  "sl_flag data val i = (if data ! i > val then 1 else 0)"

definition sl_item :: "int list \<Rightarrow> int \<Rightarrow> nat \<Rightarrow> nat \<times> (int \<Rightarrow> int option)" where
  "sl_item data val i = (i, \<lambda>c. Some (sl_flag data val i))"

text \<open>The host loop writes one flag after the other.\<close>

lemma sl_host_seq:
  assumes len: "N \<le> length data"
  shows "for_loop
      (\<lambda>i flags. case rd data i of None \<Rightarrow> None
         | Some d \<Rightarrow> wr flags i (if d > val then 1 else 0)) 0 (int N) m
    = seq_items (map (sl_item data val) [0..<N]) m"
proof -
  have "for_loop
      (\<lambda>i flags. case rd data i of None \<Rightarrow> None
         | Some d \<Rightarrow> wr flags i (if d > val then 1 else 0)) (int 0) (int N) m
    = seq_items (map (sl_item data val) [0..<N]) m"
  proof (rule for_loop_items)
    fix j :: nat and m :: "int list"
    assume "j < N"
    then have "j < length data" using len by simp
    then show "(case rd data (int j) of None \<Rightarrow> None
         | Some d \<Rightarrow> wr m (int j) (if d > val then 1 else 0)) = seq_items [sl_item data val j] m"
      by (simp add: rd_int wr_int sl_item_def sl_flag_def)
  qed
  then show ?thesis by simp
qed

text \<open>One thread of the kernel, run alone, writes the flags of its grid-stride loop.\<close>

lemma sl_thread_solo:
  assumes G: "0 < G" and bound: "int N + int G \<le> 2 ^ 31" and len: "N \<le> length data"
  shows "seq_items (map (sl_item data val) (stride G N i)) m = Some m' \<Longrightarrow>
    fst ` sl_item data val ` set (stride G N i) \<subseteq> F \<Longrightarrow>
    sl_pc l = SL_while \<Longrightarrow> sl_i l = int i \<Longrightarrow>
    solo F (devSelectLargerThan G (int N) data val) l m m'"
proof (induction "N - i" arbitrary: i l m rule: less_induct)
  case less
  let ?p = "devSelectLargerThan G (int N) data val"
  show ?case
  proof (cases "i < N")
    case False
    then have "stride G N i = []" by (simp add: stride_Nil)
    with less.prems(1) have "m' = m" by simp
    moreover have "\<not> int i < int N" using False by simp
    then have "?p l = Halt" using less.prems(3,4) by (simp add: devSelectLargerThan_def)
    ultimately show ?thesis by (simp add: solo_Halt)
  next
    case True
    then have st: "stride G N i = i # stride G N (i + G)" using G by (simp add: stride_Cons)
    from less.prems(1) have lm: "i < length m"
      and rest: "seq_items (map (sl_item data val) (stride G N (i + G)))
          (m[i := sl_flag data val i]) = Some m'"
      by (auto simp: st sl_item_def split: if_splits)
    have inF: "i \<in> F" using less.prems(2) st by (auto simp: sl_item_def)
    define l1 where "l1 = l\<lparr>sl_pc := SL_ret\<rparr>"
    define l2 where "l2 = l1\<lparr>sl_ret := 0, sl_pc := SL_if\<rparr>"
    define l3 where "l3 = l2\<lparr>sl_ret := sl_flag data val i, sl_pc := SL_store\<rparr>"
    define l4 where "l4 = l3\<lparr>sl_pc := SL_incr\<rparr>"
    define l5 where "l5 = l4\<lparr>sl_i := int (i + G), sl_pc := SL_while\<rparr>"
    have iN: "int i < int N" using True by simp
    have p0: "?p l = Tau l1" using iN less.prems(3,4) by (simp add: devSelectLargerThan_def l1_def)
    have p1: "?p l1 = Tau l2" by (simp add: devSelectLargerThan_def l1_def l2_def)
    have "i < length data" using True len by simp
    then have "rd data (sl_i l2) = Some (data ! i)"
      using less.prems(4) by (simp add: l2_def l1_def rd_int)
    then have p2: "?p l2 = Tau l3"
      by (simp add: devSelectLargerThan_def l2_def l3_def l1_def sl_flag_def)
    have p3: "?p l3 = Access i (\<lambda>c. (l4, sl_flag data val i))"
      using less.prems(4) by (simp add: devSelectLargerThan_def l3_def l4_def l2_def l1_def)
    have "int i + int G < 2 ^ 31" using iN bound by linarith
    then have "to_int32 (sl_i l4 + int G) = int (i + G)"
      using less.prems(4) by (simp add: l4_def l3_def l2_def l1_def to_int32_id)
    then have p4: "?p l4 = Tau l5"
      by (simp add: devSelectLargerThan_def l5_def l4_def l3_def l2_def l1_def)
    have s5: "solo F ?p l5 (m[i := sl_flag data val i]) m'"
    proof (rule less.hyps [where i = "i + G"])
      show "N - (i + G) < N - i" using True G by simp
      show "seq_items (map (sl_item data val) (stride G N (i + G)))
          (m[i := sl_flag data val i]) = Some m'" by (fact rest)
      show "fst ` sl_item data val ` set (stride G N (i + G)) \<subseteq> F"
        using less.prems(2) st by auto
      show "sl_pc l5 = SL_while" "sl_i l5 = int (i + G)" by (simp_all add: l5_def)
    qed
    have s4: "solo F ?p l4 (m[i := sl_flag data val i]) m'"
      using p4 s5 by (rule solo_Tau [where p = ?p and l = l4])
    have s3: "solo F ?p l3 m m'"
    proof (rule solo_Access [where p = ?p and l = l3, OF p3 inF lm])
      show "(l4, sl_flag data val i) = (l4, sl_flag data val i)" by simp
      show "solo F ?p l4 (m[i := sl_flag data val i]) m'" by (fact s4)
    qed
    have s2: "solo F ?p l2 m m'" using p2 s3 by (rule solo_Tau [where p = ?p and l = l2])
    have s1: "solo F ?p l1 m m'" using p1 s2 by (rule solo_Tau [where p = ?p and l = l1])
    from p0 s1 show ?thesis by (rule solo_Tau [where p = ?p and l = l])
  qed
qed

text \<open>The flags that the writes leave.\<close>

lemma sl_flags:
  "seq_items (map (sl_item data val) [0..<N]) (replicate N 0)
     = Some (map (sl_flag data val) [0..<N])"
proof -
  have d: "distinct (map fst (map (sl_item data val) [0..<N]))"
    by (simp add: comp_def sl_item_def)
  have "\<forall>it \<in> set (map (sl_item data val) [0..<N]).
      fst it < length (replicate N (0 :: int)) \<and> snd it (replicate N 0 ! fst it) \<noteq> None"
    by (auto simp: sl_item_def)
  with d obtain m' where
    m': "seq_items (map (sl_item data val) [0..<N]) (replicate N 0) = Some m'"
    using seq_items_exists by blast
  from seq_items_frame [OF m'] have len: "length m' = N" by simp
  have "m' ! i = sl_flag data val i" if "i < N" for i
  proof -
    from that have "sl_item data val i \<in> set (map (sl_item data val) [0..<N])" by simp
    with seq_items_distinct [OF d m']
    have "snd (sl_item data val i) (replicate N 0 ! fst (sl_item data val i))
        = Some (m' ! fst (sl_item data val i))" by blast
    then show ?thesis by (simp add: sl_item_def)
  qed
  then have "m' = map (sl_flag data val) [0..<N]" using len by (simp add: nth_equalityI)
  with m' show ?thesis by simp
qed

text \<open>The launch of \<^verbatim>\<open>devSelectLargerThan\<close> computes the flags under every schedule.\<close>

lemma sl_launch:
  fixes val :: int
  assumes G: "0 < G" and bound: "int N + int G \<le> 2 ^ 31" and len: "N \<le> length data"
  defines "kern \<equiv> \<lambda>tid :: nat. devSelectLargerThan G (to_int32 (int N)) data val"
  shows "launch kern sl_init G sched (replicate N 0) \<noteq> Fault"
    and "launch kern sl_init G sched (replicate N 0) = Final m \<Longrightarrow>
      m = map (sl_flag data val) [0..<N]"
    and "\<exists>sched'. launch kern sl_init G sched' (replicate N 0)
      = Final (map (sl_flag data val) [0..<N])"
proof -
  have "int N < 2 ^ 31" using G bound by linarith
  then have N: "to_int32 (int N) = int N" by (simp add: to_int32_id)
  have dist: "distinct (map (fst \<circ> sl_item data val) [0..<N])" by (simp add: comp_def sl_item_def)
  note part = stride_partition [OF G, where n = N]
  have dwork: "\<forall>k < G. distinct (stride G N k)" by (simp add: distinct_stride)
  have solo: "solo (fst ` sl_item data val ` set (stride G N k)) (kern k) (sl_init k)
      (replicate N 0) M"
    if k: "k < G" and M: "seq_items (map (sl_item data val) (stride G N k)) (replicate N 0) = Some M"
    for k M
    unfolding kern_def N
  proof (rule sl_thread_solo [OF G bound len M])
    show "fst ` sl_item data val ` set (stride G N k) \<subseteq> fst ` sl_item data val ` set (stride G N k)"
      by simp
    show "sl_pc (sl_init k) = SL_while" by (simp add: sl_init_def)
    have "int k < 2 ^ 31" using k bound by linarith
    then show "sl_i (sl_init k) = int k" by (simp add: sl_init_def to_int32_id)
  qed
  note gl = grid_launch_seq [where its = "sl_item data val" and work = "stride G N"
      and kern = kern and init = sl_init, OF sl_flags dist part(1) dwork part(2) solo]
  show "launch kern sl_init G sched (replicate N 0) \<noteq> Fault" by (rule gl(1))
  show "launch kern sl_init G sched (replicate N 0) = Final m \<Longrightarrow>
      m = map (sl_flag data val) [0..<N]" by (rule gl(2))
  show "\<exists>sched'. launch kern sl_init G sched' (replicate N 0)
      = Final (map (sl_flag data val) [0..<N])" by (rule gl(3))
qed

section \<open>Verification: scan and compaction\<close>

lemma exclusive_scan_length: "length (exclusive_scan acc xs) = length xs"
  by (induction xs arbitrary: acc) simp_all

lemma exclusive_scan_nth:
  "i < length xs \<Longrightarrow> exclusive_scan acc xs ! i = acc + sum_list (take i xs)"
proof (induction xs arbitrary: acc i)
  case Nil
  then show ?case by simp
next
  case (Cons x xs)
  show ?case
  proof (cases i)
    case 0
    then show ?thesis by simp
  next
    case (Suc j)
    with Cons.prems have "j < length xs" by simp
    from Cons.IH [OF this, of "acc + x"] Suc show ?thesis by simp
  qed
qed

text \<open>The sum of the flags below \<open>k\<close> is the number of kept indices below \<open>k\<close>.\<close>

lemma sum_flags:
  "sum_list (map (\<lambda>i. if P i then 1 else 0) [0..<k]) = int (length (filter P [0..<k]))"
  by (induction k) simp_all

lemma scan_flags:
  assumes "i < N"
  shows "exclusive_scan 0 (map (\<lambda>i. if P i then 1 else 0) [0..<N]) ! i
    = int (length (filter P [0..<i]))"
proof -
  have "take i (map (\<lambda>i. if P i then (1 :: int) else 0) [0..<N])
      = map (\<lambda>i. if P i then 1 else 0) [0..<i]"
    using assms by (simp add: take_map)
  with exclusive_scan_nth [of i "map (\<lambda>i. if P i then 1 else 0) [0..<N]" 0] assms
  show ?thesis by (simp add: sum_flags)
qed

text \<open>
  The scatter of one dimension: after the indices below \<open>k\<close>, the kept ones among them
  are at the front of the block, in their order, and nothing else has changed.
\<close>

lemma scatter_prefix:
  fixes old b :: "'a list"
  assumes kf: "\<forall>i < N. keepFlag ! i = (if P i then 1 else 0)"
    and ks: "\<forall>i < N. keepFlagScan ! i = int (length (filter P [0..<i]))"
    and fit: "off + N \<le> length b"
  defines "f \<equiv> \<lambda>i b. if keepFlag ! i = (1 :: int)
      then b[nat (keepFlagScan ! i) + off := old ! (i + off)] else b"
  shows "k \<le> N \<Longrightarrow>
    length (fold f [0..<k] b) = length b \<and>
    (\<forall>j < length (filter P [0..<k]). fold f [0..<k] b ! (j + off) = old ! (filter P [0..<k] ! j + off)) \<and>
    (\<forall>p. \<not> (off \<le> p \<and> p < off + length (filter P [0..<k])) \<longrightarrow> fold f [0..<k] b ! p = b ! p)"
proof (induction k)
  case 0
  then show ?case by simp
next
  case (Suc k)
  then have k: "k < N" by simp
  then have ih: "length (fold f [0..<k] b) = length b"
    "\<And>j. j < length (filter P [0..<k]) \<Longrightarrow>
        fold f [0..<k] b ! (j + off) = old ! (filter P [0..<k] ! j + off)"
    "\<And>p. \<not> (off \<le> p \<and> p < off + length (filter P [0..<k])) \<Longrightarrow> fold f [0..<k] b ! p = b ! p"
    using Suc.IH by simp_all
  let ?c = "length (filter P [0..<k])"
  let ?bk = "fold f [0..<k] b"
  have step: "fold f [0..<Suc k] b = f k ?bk" by simp
  show ?case
  proof (cases "P k")
    case False
    then have "f k ?bk = ?bk" using kf k by (simp add: f_def)
    with False ih show ?thesis unfolding step by simp
  next
    case True
    note Pk = True
    have fk: "f k ?bk = ?bk[?c + off := old ! (k + off)]"
      using True kf ks k by (simp add: f_def)
    have "?c \<le> length [0..<k]" by (rule length_filter_le)
    then have c: "?c \<le> k" by simp
    then have pos: "?c + off < length ?bk" using k fit ih(1) by simp
    have fl: "filter P [0..<Suc k] = filter P [0..<k] @ [k]" using True by simp
    have 1: "length (f k ?bk) = length b" using ih(1) by (simp add: fk)
    have 2: "f k ?bk ! (j + off) = old ! (filter P [0..<Suc k] ! j + off)"
      if j: "j < length (filter P [0..<Suc k])" for j
    proof (cases "j < ?c")
      case True
      then have "f k ?bk ! (j + off) = ?bk ! (j + off)" by (simp add: fk)
      with ih(2) [OF True] True show ?thesis by (simp add: fl nth_append)
    next
      case False
      with j Pk have "j = ?c" by simp
      then show ?thesis using pos Pk by (simp add: fk nth_append)
    qed
    have 3: "f k ?bk ! p = b ! p"
      if p: "\<not> (off \<le> p \<and> p < off + length (filter P [0..<Suc k]))" for p
    proof -
      have "length (filter P [0..<Suc k]) = Suc ?c" using Pk by simp
      with p have "\<not> (off \<le> p \<and> p < off + Suc ?c)" by metis
      then have ne: "p \<noteq> ?c + off" and out: "\<not> (off \<le> p \<and> p < off + ?c)"
        by auto
      from ne have "f k ?bk ! p = ?bk ! p" by (simp add: fk)
      with ih(3) [OF out] show ?thesis by simp
    qed
    from 1 2 3 show ?thesis unfolding step by blast
  qed
qed

lemma scatter_dim_result:
  fixes old b :: "'a list"
  assumes kf: "\<forall>i < N. keepFlag ! i = (if P i then 1 else 0)"
    and ks: "\<forall>i < N. keepFlagScan ! i = int (length (filter P [0..<i]))"
    and fit: "off + N \<le> length b"
  shows "length (scatter_dim keepFlag keepFlagScan N off old b) = length b"
    and "j < length (filter P [0..<N]) \<Longrightarrow>
      scatter_dim keepFlag keepFlagScan N off old b ! (j + off) = old ! (filter P [0..<N] ! j + off)"
    and "\<not> (off \<le> p \<and> p < off + length (filter P [0..<N])) \<Longrightarrow>
      scatter_dim keepFlag keepFlagScan N off old b ! p = b ! p"
  using scatter_prefix [OF kf ks fit, where k = N and old = old] unfolding scatter_dim_def by simp_all

text \<open>The compaction of all dimensions.\<close>

lemma compact_dims:
  fixes old :: "'a list"
  assumes kf: "\<forall>i < N. keepFlag ! i = (if P i then 1 else 0)"
    and ks: "\<forall>i < N. keepFlagScan ! i = int (length (filter P [0..<i]))"
    and cap: "N \<le> R" and len: "length old = D * R"
  defines "g \<equiv> \<lambda>n b. scatter_dim keepFlag keepFlagScan N (n * R) old b"
  shows "k \<le> D \<Longrightarrow>
    length (fold g [0..<k] old) = length old \<and>
    (\<forall>d < k. \<forall>j < length (filter P [0..<N]).
       fold g [0..<k] old ! (j + d * R) = old ! (filter P [0..<N] ! j + d * R))"
proof (induction k)
  case 0
  then show ?case by simp
next
  case (Suc k)
  then have k: "k < D" by simp
  let ?bk = "fold g [0..<k] old"
  let ?sel = "filter P [0..<N]"
  have ih: "length ?bk = length old"
    "\<And>d j. d < k \<Longrightarrow> j < length ?sel \<Longrightarrow> ?bk ! (j + d * R) = old ! (?sel ! j + d * R)"
    using Suc.IH k by simp_all
  have step: "fold g [0..<Suc k] old = scatter_dim keepFlag keepFlagScan N (k * R) old ?bk"
    by (simp add: g_def)
  have "k * R + R \<le> D * R" using k by (metis Suc_leI mult_Suc mult_le_mono1 add.commute)
  then have fit: "k * R + N \<le> length ?bk" using cap len ih(1) by simp
  note sc = scatter_dim_result [OF kf ks fit, where old = old]
  have "length ?sel \<le> length [0..<N]" by (rule length_filter_le)
  then have sN: "length ?sel \<le> N" by simp
  have 2: "fold g [0..<Suc k] old ! (j + d * R) = old ! (?sel ! j + d * R)"
    if d: "d < Suc k" and j: "j < length ?sel" for d j
  proof (cases "d = k")
    case True
    with sc(2) [OF j] show ?thesis unfolding step by simp
  next
    case False
    with d have dk: "d < k" by simp
    then have "d * R + R \<le> k * R" by (metis Suc_leI mult_Suc mult_le_mono1 add.commute)
    moreover have "j < R" using j sN cap by simp
    ultimately have "\<not> (k * R \<le> j + d * R \<and> j + d * R < k * R + length ?sel)" by simp
    from sc(3) [OF this] ih(2) [OF dk j] show ?thesis unfolding step by simp
  qed
  from sc(1) ih(1) 2 show ?case unfolding step by simp
qed

lemma Compact_result:
  fixes a :: "'a Array"
  assumes kf: "\<forall>i < size_A a. keepFlag ! i = (if P i then 1 else 0)"
    and ks: "\<forall>i < size_A a. keepFlagScan ! i = int (length (filter P [0..<i]))"
    and cap: "size_A a \<le> realSize a" and len: "length (buffer a) = nDims a * realSize a"
    and nk: "nKeep = int (length (filter P [0..<size_A a]))"
  shows "size_A (Compact nKeep keepFlag keepFlagScan a) = length (filter P [0..<size_A a])"
    and "d < nDims a \<Longrightarrow> j < length (filter P [0..<size_A a]) \<Longrightarrow>
      buffer (Compact nKeep keepFlag keepFlagScan a) ! (j + d * realSize a)
        = buffer a ! (filter P [0..<size_A a] ! j + d * realSize a)"
proof -
  show "size_A (Compact nKeep keepFlag keepFlagScan a) = length (filter P [0..<size_A a])"
    by (simp add: Compact_def nk)
  assume d: "d < nDims a" and j: "j < length (filter P [0..<size_A a])"
  have b: "buffer (Compact nKeep keepFlag keepFlagScan a)
      = fold (\<lambda>n b. scatter_dim keepFlag keepFlagScan (size_A a) (n * realSize a) (buffer a) b)
          [0..<nDims a] (buffer a)"
    by (simp add: Compact_def buffer_def set_buffer_def)
  from compact_dims [OF kf ks cap len, where k = "nDims a"] d j
  show "buffer (Compact nKeep keepFlag keepFlagScan a) ! (j + d * realSize a)
        = buffer a ! (filter P [0..<size_A a] ! j + d * realSize a)"
    unfolding b by simp
qed

section \<open>Verification: the claim on SelectLargerThan\<close>

text \<open>The indices below the size whose element is larger than the value, in increasing order.\<close>

definition selected :: "int Array \<Rightarrow> int \<Rightarrow> nat list" where
  "selected a v = filter (\<lambda>i. buffer a ! i > v) [0..<size_A a]"

text \<open>What scan and compaction make of the flags.\<close>

lemma select_compact:
  fixes a :: "int Array" and A :: "'b Array"
  assumes wf_a: "size_A a \<le> realSize a" "length (buffer a) = nDims a * realSize a"
    and wf_A: "size_A A = size_A a" "size_A A \<le> realSize A"
      "length (buffer A) = nDims A * realSize A"
    and r: "(let (nSelect, selectFlagScan) = ExclusiveScan (map (sl_flag (buffer a) v) [0..<size_A a])
          in (nSelect, Compact nSelect (map (sl_flag (buffer a) v) [0..<size_A a]) selectFlagScan a,
              Compact nSelect (map (sl_flag (buffer a) v) [0..<size_A a]) selectFlagScan A))
        = (n, a', A')"
  shows "n = int (length (selected a v)) \<and>
     size_A a' = length (selected a v) \<and> size_A A' = length (selected a v) \<and>
     (\<forall>d < nDims a. \<forall>j < length (selected a v).
        buffer a' ! (j + d * realSize a) = buffer a ! (selected a v ! j + d * realSize a)) \<and>
     (\<forall>d < nDims A. \<forall>j < length (selected a v).
        buffer A' ! (j + d * realSize A) = buffer A ! (selected a v ! j + d * realSize A))"
proof -
  let ?P = "\<lambda>i. buffer a ! i > v"
  let ?N = "size_A a"
  let ?flags = "map (sl_flag (buffer a) v) [0..<?N]"
  let ?scan = "exclusive_scan 0 ?flags"
  have fl: "?flags = map (\<lambda>i. if ?P i then 1 else 0) [0..<?N]" by (simp add: sl_flag_def)
  have sum: "sum_list ?flags = int (length (filter ?P [0..<?N]))"
    unfolding fl by (rule sum_flags)
  from r have "(sum_list ?flags, Compact (sum_list ?flags) ?flags ?scan a,
      Compact (sum_list ?flags) ?flags ?scan A) = (n, a', A')"
    unfolding ExclusiveScan_def Let_def prod.case .
  then have e: "n = sum_list ?flags" "a' = Compact (sum_list ?flags) ?flags ?scan a"
    "A' = Compact (sum_list ?flags) ?flags ?scan A" by auto
  have n: "n = int (length (filter ?P [0..<?N]))" using e(1) sum by simp
  have a': "a' = Compact n ?flags ?scan a" unfolding e(1) by (fact e(2))
  have A': "A' = Compact n ?flags ?scan A" unfolding e(1) by (fact e(3))
  have kf: "\<forall>i < ?N. ?flags ! i = (if ?P i then 1 else 0)" by (simp add: sl_flag_def)
  have ks: "\<forall>i < ?N. ?scan ! i = int (length (filter ?P [0..<i]))"
    unfolding fl using scan_flags [of _ ?N ?P] by blast
  have kfA: "\<forall>i < size_A A. ?flags ! i = (if ?P i then 1 else 0)" using kf wf_A(1) by simp
  have ksA: "\<forall>i < size_A A. ?scan ! i = int (length (filter ?P [0..<i]))" using ks wf_A(1) by simp
  have nA: "n = int (length (filter ?P [0..<size_A A]))" using n wf_A(1) by simp
  note ca = Compact_result [OF kf ks wf_a n]
  note cA = Compact_result [OF kfA ksA wf_A(2,3) nA]
  have sA: "filter ?P [0..<size_A A] = selected a v" by (simp add: selected_def wf_A(1))
  have sa: "filter ?P [0..<?N] = selected a v" by (simp add: selected_def)
  show ?thesis
    using n ca(1) cA(1) ca(2) cA(2) unfolding a' [symmetric] A' [symmetric] sA sa by blast
qed

text \<open>
  C5. The receiver holds \<open>nDims\<close> blocks of \<open>realSize\<close> elements, of which \<open>size\<close> are in use, and
  so does the companion array, with the same size; on the device path the grid is such
  that no subscript of a thread wraps around. Then \<^verbatim>\<open>SelectLargerThan\<close> never fails, it
  returns (on the device path: for some schedule), and whenever it returns, the return
  value and the new size of both arrays is the number of indices below the size whose
  element is larger than the value, and in every dimension both arrays hold at the front
  the elements that were at these indices, in the same order.
\<close>

theorem SelectLargerThan_compacts:
  fixes a :: "int Array" and A :: "'b Array"
  assumes wf_a: "0 < nDims a" "size_A a \<le> realSize a" "length (buffer a) = nDims a * realSize a"
    and wf_A: "size_A A = size_A a" "size_A A \<le> realSize A"
      "length (buffer A) = nDims A * realSize A"
    and grid: "cudaFlag_A a = 1 \<Longrightarrow>
      0 < nThreadsTotal g \<and> int (size_A a) + int (nThreadsTotal g) \<le> 2 ^ 31"
  shows "SelectLargerThan g a v A \<noteq> Fault \<and>
     (\<exists>sched r. SelectLargerThan (g\<lparr>schedule := sched\<rparr>) a v A = Final r) \<and>
     (\<forall>n a' A'. SelectLargerThan g a v A = Final (n, a', A') \<longrightarrow>
        n = int (length (selected a v)) \<and>
        size_A a' = length (selected a v) \<and> size_A A' = length (selected a v) \<and>
        (\<forall>d < nDims a. \<forall>j < length (selected a v).
           buffer a' ! (j + d * realSize a) = buffer a ! (selected a v ! j + d * realSize a)) \<and>
        (\<forall>d < nDims A. \<forall>j < length (selected a v).
           buffer A' ! (j + d * realSize A) = buffer A ! (selected a v ! j + d * realSize A)))"
proof -
  let ?N = "size_A a"
  let ?flags = "map (sl_flag (buffer a) v) [0..<?N]"
  define fin where "fin = (\<lambda>selectFlag.
      let (nSelect, selectFlagScan) = ExclusiveScan selectFlag
      in (nSelect, Compact nSelect selectFlag selectFlagScan a,
          Compact nSelect selectFlag selectFlagScan A))"
  from wf_a(1) have "Suc 0 \<le> nDims a" by simp
  then have "Suc 0 * realSize a \<le> nDims a * realSize a" by (rule mult_le_mono1)
  then have "realSize a \<le> length (buffer a)" by (simp add: wf_a(3))
  with wf_a(2) have len: "?N \<le> length (buffer a)" by (rule le_trans)
  have post: "n = int (length (selected a v)) \<and>
     size_A a' = length (selected a v) \<and> size_A A' = length (selected a v) \<and>
     (\<forall>d < nDims a. \<forall>j < length (selected a v).
        buffer a' ! (j + d * realSize a) = buffer a ! (selected a v ! j + d * realSize a)) \<and>
     (\<forall>d < nDims A. \<forall>j < length (selected a v).
        buffer A' ! (j + d * realSize A) = buffer A ! (selected a v ! j + d * realSize A))"
    if "fin ?flags = (n, a', A')" for n a' A'
    using select_compact [OF wf_a(2,3) wf_A] that unfolding fin_def by blast
  show ?thesis
  proof (cases "cudaFlag_A a = 1")
    case False
    then have buf: "buffer a = hostVec a" by (simp add: buffer_def)
    have "SelectLargerThan g' a v A = Final (fin ?flags)" for g'
      using False sl_host_seq [OF len, of v "replicate ?N 0"] sl_flags [of "buffer a" v ?N]
      by (simp add: SelectLargerThan_def buf of_option_def fin_def)
    with post show ?thesis by (metis outcome.inject outcome.distinct(1))
  next
    case True
    then have buf: "buffer a = deviceVec a" by (simp add: buffer_def)
    let ?G = "nThreadsTotal g"
    let ?k = "\<lambda>tid :: nat. devSelectLargerThan ?G (to_int32 (int ?N)) (buffer a) v"
    let ?l = "\<lambda>sched. launch ?k sl_init ?G sched (replicate ?N 0)"
    from grid [OF True] have G: "0 < ?G" and b: "int ?N + int ?G \<le> 2 ^ 31" by simp_all
    note gl = sl_launch [OF G b len, where val = v]
    have sel: "SelectLargerThan g' a v A = map_outcome fin (?l (schedule g'))"
      if "nThreadsTotal g' = ?G" for g'
      using True that by (simp add: SelectLargerThan_def fin_def buf)
    have 1: "SelectLargerThan g a v A \<noteq> Fault"
      using gl(1) [of "schedule g"] unfolding sel [OF refl]
      by (cases "?l (schedule g)") simp_all
    have 2: "\<exists>sched r. SelectLargerThan (g\<lparr>schedule := sched\<rparr>) a v A = Final r"
    proof -
      from gl(3) obtain sched where "?l sched = Final ?flags" by blast
      then have "SelectLargerThan (g\<lparr>schedule := sched\<rparr>) a v A = Final (fin ?flags)"
        by (simp add: sel)
      then show ?thesis by blast
    qed
    have 3: "fin ?flags = r" if "SelectLargerThan g a v A = Final r" for r
    proof -
      from that obtain m where m: "?l (schedule g) = Final m" and r: "r = fin m"
        unfolding sel [OF refl] by (cases "?l (schedule g)") simp_all
      from gl(2) [OF m] r show ?thesis by simp
    qed
    from 1 2 3 post show ?thesis by blast
  qed
qed

definition select_a :: "int Array" where
  "select_a = \<lparr>nDims = 1, size_A = 3, realSize = 4, cudaFlag_A = 1, hostVec = [],
     deviceVec = [5, 1, 7, 0]\<rparr>"

definition select_A :: "int Array" where
  "select_A = \<lparr>nDims = 2, size_A = 3, realSize = 3, cudaFlag_A = 1, hostVec = [],
     deviceVec = [10, 20, 30, 40, 50, 60]\<rparr>"

lemma upt_0_3: "[0..<3] = [0, 1, 2]"
  by (simp add: upt_rec)

lemma SelectLargerThan_select_a:
  "SelectLargerThan grid2 select_a 2 select_A
     = Final (2, select_a\<lparr>size_A := 2, deviceVec := [5, 7, 7, 0]\<rparr>,
         select_A\<lparr>size_A := 2, deviceVec := [10, 30, 30, 40, 60, 60]\<rparr>)"
  by (simp add: SelectLargerThan_def select_a_def select_A_def grid2_def launch_def
      grid_step_def thread_step_def devSelectLargerThan_def sl_init_def to_int32_def rd_def
      all_less_2 upt_0_2 upt_0_3 ExclusiveScan_def Compact_def scatter_dim_def buffer_def
      set_buffer_def numeral_3_eq_3)

theorem SelectLargerThan_compacts_witness:
  "0 < nDims select_a \<and> size_A select_a \<le> realSize select_a \<and>
   length (buffer select_a) = nDims select_a * realSize select_a \<and>
   size_A select_A = size_A select_a \<and> size_A select_A \<le> realSize select_A \<and>
   length (buffer select_A) = nDims select_A * realSize select_A \<and>
   0 < nThreadsTotal grid2 \<and> int (size_A select_a) + int (nThreadsTotal grid2) \<le> 2 ^ 31 \<and>
   SelectLargerThan grid2 select_a 2 select_A
     = Final (2, select_a\<lparr>size_A := 2, deviceVec := [5, 7, 7, 0]\<rparr>,
         select_A\<lparr>size_A := 2, deviceVec := [10, 30, 30, 40, 60, 60]\<rparr>) \<and>
   selected select_a 2 = [0, 2] \<and>
   buffer (select_a\<lparr>size_A := 2, deviceVec := [5, 7, 7, 0]\<rparr>) ! (1 + 0 * realSize select_a)
     = buffer select_a ! (2 + 0 * realSize select_a) \<and>
   buffer (select_A\<lparr>size_A := 2, deviceVec := [10, 30, 30, 40, 60, 60]\<rparr>)
       ! (1 + 1 * realSize select_A)
     = buffer select_A ! (2 + 1 * realSize select_A)"
proof -
  have wa: "0 < nDims select_a" "size_A select_a \<le> realSize select_a"
    "length (buffer select_a) = nDims select_a * realSize select_a"
    by (simp_all add: select_a_def buffer_def)
  have wA: "size_A select_A = size_A select_a" "size_A select_A \<le> realSize select_A"
    "length (buffer select_A) = nDims select_A * realSize select_A"
    by (simp_all add: select_a_def select_A_def buffer_def)
  have g: "0 < nThreadsTotal grid2 \<and> int (size_A select_a) + int (nThreadsTotal grid2) \<le> 2 ^ 31"
    by (simp add: grid2_def select_a_def)
  have s: "selected select_a 2 = [0, 2]"
    by (simp add: selected_def select_a_def buffer_def upt_0_3)
  have d: "(0 :: nat) < nDims select_a" "(1 :: nat) < nDims select_A"
    "(1 :: nat) < length (selected select_a 2)"
    by (simp_all add: s) (simp_all add: select_a_def select_A_def)
  from SelectLargerThan_compacts [OF wa wA g, of 2] SelectLargerThan_select_a
  have p: "(\<forall>d < nDims select_a. \<forall>j < length (selected select_a 2).
       buffer (select_a\<lparr>size_A := 2, deviceVec := [5, 7, 7, 0]\<rparr>) ! (j + d * realSize select_a)
         = buffer select_a ! (selected select_a 2 ! j + d * realSize select_a))"
    and q: "(\<forall>d < nDims select_A. \<forall>j < length (selected select_a 2).
       buffer (select_A\<lparr>size_A := 2, deviceVec := [10, 30, 30, 40, 60, 60]\<rparr>)
           ! (j + d * realSize select_A)
         = buffer select_A ! (selected select_a 2 ! j + d * realSize select_A))"
    by simp_all
  from p d(1,3) have "buffer (select_a\<lparr>size_A := 2, deviceVec := [5, 7, 7, 0]\<rparr>)
        ! (1 + 0 * realSize select_a)
      = buffer select_a ! (selected select_a 2 ! 1 + 0 * realSize select_a)" by blast
  then have a: "buffer (select_a\<lparr>size_A := 2, deviceVec := [5, 7, 7, 0]\<rparr>)
        ! (1 + 0 * realSize select_a) = buffer select_a ! (2 + 0 * realSize select_a)"
    by (simp add: s)
  from q d(2,3) have "buffer (select_A\<lparr>size_A := 2, deviceVec := [10, 30, 30, 40, 60, 60]\<rparr>)
        ! (1 + 1 * realSize select_A)
      = buffer select_A ! (selected select_a 2 ! 1 + 1 * realSize select_A)" by blast
  then have b: "buffer (select_A\<lparr>size_A := 2, deviceVec := [10, 30, 30, 40, 60, 60]\<rparr>)
        ! (1 + 1 * realSize select_A) = buffer select_A ! (2 + 1 * realSize select_A)"
    by (simp add: s)
  from wa wA g SelectLargerThan_select_a s a b show ?thesis by simp
qed

section \<open>Verification: the device path against the host path\<close>

text \<open>
  The two paths of a batch pass agree on an input: the host path returns a result; the
  device path does not fail under any schedule, each of its results is the same as that
  of the host (up to where the data are held), and it has a result under some schedule.
\<close>

definition paths_agree :: "('r \<Rightarrow> 'r \<Rightarrow> bool) \<Rightarrow> 'r outcome \<Rightarrow> (nat list \<Rightarrow> 'r outcome) \<Rightarrow> bool" where
  "paths_agree same host device \<longleftrightarrow>
     (\<exists>h. host = Final h \<and>
        (\<forall>sched. device sched \<noteq> Fault \<and> (\<forall>d. device sched = Final d \<longrightarrow> same h d)) \<and>
        (\<exists>sched d. device sched = Final d))"

text \<open>Two meshes hold the same arrays; two arrays have the same shape and contents.\<close>

definition same_mesh :: "mesh \<Rightarrow> mesh \<Rightarrow> bool" where
  "same_mesh x y \<longleftrightarrow>
     triangleEdges x = triangleEdges y \<and> edgeTriangles x = edgeTriangles y \<and>
     edgeTriangles_size x = edgeTriangles_size y \<and> triangleSubstitute x = triangleSubstitute y"

definition same_contents :: "'a Array \<Rightarrow> 'a Array \<Rightarrow> bool" where
  "same_contents x y \<longleftrightarrow>
     nDims x = nDims y \<and> size_A x = size_A y \<and> realSize x = realSize y \<and> buffer x = buffer y"

definition same_selection ::
  "int \<times> int Array \<times> 'b Array \<Rightarrow> int \<times> int Array \<times> 'b Array \<Rightarrow> bool" where
  "same_selection r r' \<longleftrightarrow>
     fst r = fst r' \<and> same_contents (fst (snd r)) (fst (snd r')) \<and>
     same_contents (snd (snd r)) (snd (snd r'))"

lemma paths_agreeI:
  assumes "host = Final h"
    and "\<And>sched. device sched \<noteq> Fault"
    and "\<And>sched d. device sched = Final d \<Longrightarrow> same h d"
    and "\<exists>sched d. device sched = Final d"
  shows "paths_agree same host device"
  unfolding paths_agree_def using assms by blast

subsection \<open>EdgeRepair\<close>

lemma same_mesh_device: "same_mesh s d \<Longrightarrow> cudaFlag d = 1 \<Longrightarrow> d = s\<lparr>cudaFlag := 1\<rparr>"
  by (cases s, cases d) (simp add: same_mesh_def)

lemma on_device_mesh:
  "repairable (s\<lparr>cudaFlag := c\<rparr>) enc n = repairable s enc n"
  "processed_edges (s\<lparr>cudaFlag := c\<rparr>) enc n = processed_edges s enc n"
  "er_count (s\<lparr>cudaFlag := c\<rparr>) enc n = er_count s enc n"
  "repaired (s\<lparr>cudaFlag := c\<rparr>) e = repaired s e"
proof -
  show p: "processed_edges (s\<lparr>cudaFlag := c\<rparr>) enc n = processed_edges s enc n"
    by (cases enc) (simp_all add: processed_edges_def)
  have "slot_ok (s\<lparr>cudaFlag := c\<rparr>) = slot_ok s" by (simp add: slot_ok_def fun_eq_iff)
  then show "repairable (s\<lparr>cudaFlag := c\<rparr>) enc n = repairable s enc n"
    unfolding repairable_def p by simp
  show "er_count (s\<lparr>cudaFlag := c\<rparr>) enc n = er_count s enc n"
    by (cases enc) (simp_all add: er_count_def)
  have "contains_edge (s\<lparr>cudaFlag := c\<rparr>) = contains_edge s"
    by (simp add: contains_edge_def fun_eq_iff)
  then have "one_step (s\<lparr>cudaFlag := c\<rparr>) = one_step s" by (simp add: one_step_def fun_eq_iff)
  then show "repaired (s\<lparr>cudaFlag := c\<rparr>) e = repaired s e" by (simp add: repaired_def)
qed

lemma on_device_result:
  "er_result (s\<lparr>cudaFlag := c\<rparr>) enc n = (er_result s enc n)\<lparr>cudaFlag := c\<rparr>"
  unfolding er_result_def on_device_mesh by simp

lemma EdgeRepair_paths_agree:
  assumes host: "cudaFlag s \<noteq> 1" and dev: "cudaFlag d = 1" and same: "same_mesh s d"
    and rep: "repairable s enc n" and dist: "distinct (processed_edges s enc n)"
    and grid: "grid_ok g (er_count s enc n)"
  shows "paths_agree same_mesh (EdgeRepair g s enc n)
    (\<lambda>sched. EdgeRepair (g\<lparr>schedule := sched\<rparr>) d enc n)"
proof (rule paths_agreeI)
  note d = same_mesh_device [OF same dev]
  have rep': "repairable d enc n" and dist': "distinct (processed_edges d enc n)"
    using rep dist by (simp_all add: d on_device_mesh)
  have grid': "grid_ok (g\<lparr>schedule := sched\<rparr>) (er_count d enc n)" for sched
    using grid by (simp add: d on_device_mesh grid_ok_def)
  show "EdgeRepair g s enc n = Final (er_result s enc n)"
    by (rule EdgeRepair_host_result [OF rep dist host])
  show "EdgeRepair (g\<lparr>schedule := sched\<rparr>) d enc n \<noteq> Fault" for sched
    using EdgeRepair_device_result(1) [OF rep' dist' dev grid' [of sched]] by auto
  show "same_mesh (er_result s enc n) r"
    if "EdgeRepair (g\<lparr>schedule := sched\<rparr>) d enc n = Final r" for sched r
  proof -
    from EdgeRepair_device_result(1) [OF rep' dist' dev grid' [of sched]] that
    have "r = er_result d enc n" by auto
    then show ?thesis by (simp add: d on_device_result same_mesh_def)
  qed
  have "grid_ok g (er_count d enc n)" using grid by (simp add: d on_device_mesh)
  from EdgeRepair_device_result(2) [OF rep' dist' dev this]
  show "\<exists>sched r. EdgeRepair (g\<lparr>schedule := sched\<rparr>) d enc n = Final r" by blast
qed

subsection \<open>SetToValue\<close>

lemma SetToValue_paths_agree:
  fixes a b :: "'a Array"
  assumes host: "cudaFlag_A a = 0" and dev: "cudaFlag_A b = 1" and same: "same_contents a b"
    and wf: "length (buffer a) = nDims a * realSize a" "nDims a * realSize a \<le> 2 ^ 32"
    and range: "endIndex \<le> realSize a"
    and grid: "0 < nThreadsTotal g" "startIndex + nThreadsTotal g \<le> 2 ^ 32"
      "endIndex + nThreadsTotal g \<le> 2 ^ 32"
  shows "paths_agree same_contents (SetToValue g a v startIndex endIndex)
    (\<lambda>sched. SetToValue (g\<lparr>schedule := sched\<rparr>) b v startIndex endIndex)"
proof -
  let ?R = "realSize a" and ?D = "nDims a" and ?G = "nThreadsTotal g"
  let ?k = "devSetToValue ?G v (int startIndex) (int endIndex) (int ?R) (int ?D)"
  from sv_host_exists [OF range wf(1)] obtain m' where
    seq: "seq_items (map (sv_item ?R v) (List.product [0..<?D] [startIndex..<endIndex]))
      (buffer a) = Some m'" by blast
  have bufa: "buffer a = hostVec a" using host by (simp add: buffer_def)
  have bufb: "deviceVec b = buffer a" and shape: "realSize b = ?R" "nDims b = ?D" "size_A b = size_A a"
    using same dev by (simp_all add: same_contents_def buffer_def)
  note gl = sv_launch [OF grid(1) grid(3) grid(2) range wf(2) seq]
  have devr: "SetToValue (g\<lparr>schedule := sched\<rparr>) b v startIndex endIndex
      = map_outcome (\<lambda>m. b\<lparr>deviceVec := m\<rparr>) (launch ?k sv_init ?G sched (buffer a))" for sched
    using dev by (simp add: SetToValue_def shape bufb)
  show ?thesis
  proof (rule paths_agreeI)
    show "SetToValue g a v startIndex endIndex = Final (a\<lparr>hostVec := m'\<rparr>)"
      using host seq sv_host_seq [OF range wf(2), of v startIndex "hostVec a"]
      by (simp add: SetToValue_def bufa of_option_def)
    show "SetToValue (g\<lparr>schedule := sched\<rparr>) b v startIndex endIndex \<noteq> Fault" for sched
      using gl(1) [of sched] unfolding devr
      by (cases "launch ?k sv_init ?G sched (buffer a)") simp_all
    show "same_contents (a\<lparr>hostVec := m'\<rparr>) r"
      if "SetToValue (g\<lparr>schedule := sched\<rparr>) b v startIndex endIndex = Final r" for sched r
    proof -
      from that obtain m where m: "launch ?k sv_init ?G sched (buffer a) = Final m"
        and r: "r = b\<lparr>deviceVec := m\<rparr>"
        unfolding devr by (cases "launch ?k sv_init ?G sched (buffer a)") simp_all
      from gl(2) [OF m] have "m = m'" .
      then show ?thesis using host dev by (simp add: r same_contents_def buffer_def shape)
    qed
    from gl(3) obtain sched where "launch ?k sv_init ?G sched (buffer a) = Final m'" by blast
    then have "SetToValue (g\<lparr>schedule := sched\<rparr>) b v startIndex endIndex
        = Final (b\<lparr>deviceVec := m'\<rparr>)" by (simp add: devr)
    then show "\<exists>sched r. SetToValue (g\<lparr>schedule := sched\<rparr>) b v startIndex endIndex = Final r"
      by blast
  qed
qed

subsection \<open>SelectLargerThan\<close>

lemma Compact_same:
  "same_contents x y \<Longrightarrow>
     same_contents (Compact n keepFlag keepFlagScan x) (Compact n keepFlag keepFlagScan y)"
  by (simp add: same_contents_def Compact_def buffer_def set_buffer_def)

lemma SelectLargerThan_paths_agree:
  fixes c e :: "int Array" and C E :: "'b Array"
  assumes host: "cudaFlag_A c \<noteq> 1" and dev: "cudaFlag_A e = 1"
    and same: "same_contents c e" "same_contents C E"
    and len: "size_A c \<le> length (buffer c)"
    and grid: "0 < nThreadsTotal g" "int (size_A c) + int (nThreadsTotal g) \<le> 2 ^ 31"
  shows "paths_agree same_selection (SelectLargerThan g c w C)
    (\<lambda>sched. SelectLargerThan (g\<lparr>schedule := sched\<rparr>) e w E)"
proof -
  let ?N = "size_A c" and ?G = "nThreadsTotal g"
  let ?flags = "map (sl_flag (buffer c) w) [0..<?N]"
  let ?k = "\<lambda>tid :: nat. devSelectLargerThan ?G (to_int32 (int ?N)) (buffer c) w"
  let ?l = "\<lambda>sched. launch ?k sl_init ?G sched (replicate ?N 0)"
  define fin where "fin = (\<lambda>(x :: int Array) (X :: 'b Array) selectFlag.
      let (nSelect, selectFlagScan) = ExclusiveScan selectFlag
      in (nSelect, Compact nSelect selectFlag selectFlagScan x,
          Compact nSelect selectFlag selectFlagScan X))"
  have bufc: "buffer c = hostVec c" using host by (simp add: buffer_def)
  have bufe: "deviceVec e = buffer c" and size: "size_A e = ?N"
    using same(1) dev by (simp_all add: same_contents_def buffer_def)
  note gl = sl_launch [OF grid len, where val = w]
  have devr: "SelectLargerThan (g\<lparr>schedule := sched\<rparr>) e w E = map_outcome (fin e E) (?l sched)"
    for sched
    using dev by (simp add: SelectLargerThan_def fin_def bufe size)
  have agree: "same_selection (fin c C ?flags) (fin e E ?flags)"
    using Compact_same [OF same(1)] Compact_same [OF same(2)]
    by (simp add: same_selection_def fin_def ExclusiveScan_def)
  show ?thesis
  proof (rule paths_agreeI)
    show "SelectLargerThan g c w C = Final (fin c C ?flags)"
      using host sl_host_seq [OF len, of w "replicate ?N 0"] sl_flags [of "buffer c" w ?N]
      by (simp add: SelectLargerThan_def bufc of_option_def fin_def)
    show "SelectLargerThan (g\<lparr>schedule := sched\<rparr>) e w E \<noteq> Fault" for sched
      using gl(1) [of sched] unfolding devr by (cases "?l sched") simp_all
    show "same_selection (fin c C ?flags) r"
      if "SelectLargerThan (g\<lparr>schedule := sched\<rparr>) e w E = Final r" for sched r
    proof -
      from that obtain m where m: "?l sched = Final m" and r: "r = fin e E m"
        unfolding devr by (cases "?l sched") simp_all
      from gl(2) [OF m] r agree show ?thesis by simp
    qed
    from gl(3) obtain sched where "?l sched = Final ?flags" by blast
    then have "SelectLargerThan (g\<lparr>schedule := sched\<rparr>) e w E = Final (fin e E ?flags)"
      by (simp add: devr)
    then show "\<exists>sched r. SelectLargerThan (g\<lparr>schedule := sched\<rparr>) e w E = Final r" by blast
  qed
qed

section \<open>Verification: the claim on the two paths\<close>

text \<open>
  Claim C3, as stated for every input state, fails. With a candidate list that names
  edge \<open>0\<close> twice, two threads of \<^verbatim>\<open>devEdgeRepairLimit\<close> repair the same entry: when both read
  it before either writes it, each does one lookup from the old entry and the entry ends
  at the substitute of the stale triangle, triangle \<open>1\<close>. The host loop repairs the entry
  twice, one iteration after the other, and ends at triangle \<open>2\<close>; so does the device
  under a schedule that runs one thread after the other.
\<close>

definition mesh_chain_device :: mesh where
  "mesh_chain_device = mesh_chain\<lparr>cudaFlag := 1\<rparr>"

theorem EdgeRepair_paths_differ:
  "cudaFlag mesh_chain = 0 \<and> cudaFlag mesh_chain_device = 1 \<and>
   same_mesh mesh_chain mesh_chain_device \<and>
   EdgeRepair grid2 mesh_chain (Some [0, 0]) 2
     = Final (mesh_chain\<lparr>edgeTriangles := [\<lparr>i2x = 2, i2y = - 1\<rparr>]\<rparr>) \<and>
   EdgeRepair grid2 mesh_chain_device (Some [0, 0]) 2
     = Final (mesh_chain_device\<lparr>edgeTriangles := [\<lparr>i2x = 1, i2y = - 1\<rparr>]\<rparr>) \<and>
   EdgeRepair (grid2\<lparr>schedule := [0, 0, 0, 0, 0, 0, 0, 0, 1, 1, 1, 1, 1, 1, 1, 1]\<rparr>)
       mesh_chain_device (Some [0, 0]) 2
     = Final (mesh_chain_device\<lparr>edgeTriangles := [\<lparr>i2x = 2, i2y = - 1\<rparr>]\<rparr>)"
proof -
  have 1: "cudaFlag mesh_chain = 0" "cudaFlag mesh_chain_device = 1"
    "same_mesh mesh_chain mesh_chain_device"
    by (simp_all add: mesh_chain_device_def mesh_chain_def same_mesh_def)
  have 2: "EdgeRepair grid2 mesh_chain (Some [0, 0]) 2
     = Final (mesh_chain\<lparr>edgeTriangles := [\<lparr>i2x = 2, i2y = - 1\<rparr>]\<rparr>)"
    by (simp add: EdgeRepair_def mesh_chain_def for_loop.simps SingleEdgeRepair_eq rd_def
        repair_entry_def repair_slot_def of_option_def)
  have 3: "EdgeRepair grid2 mesh_chain_device (Some [0, 0]) 2
     = Final (mesh_chain_device\<lparr>edgeTriangles := [\<lparr>i2x = 1, i2y = - 1\<rparr>]\<rparr>)"
    by (simp add: EdgeRepair_def mesh_chain_device_def mesh_chain_def grid2_def launch_def
        grid_step_def thread_step_def devEdgeRepairLimit_def SingleEdgeRepair_thread_def
        er_init_def to_int32_def rd_def all_less_2 upt_0_2)
  have 4: "EdgeRepair (grid2\<lparr>schedule := [0, 0, 0, 0, 0, 0, 0, 0, 1, 1, 1, 1, 1, 1, 1, 1]\<rparr>)
       mesh_chain_device (Some [0, 0]) 2
     = Final (mesh_chain_device\<lparr>edgeTriangles := [\<lparr>i2x = 2, i2y = - 1\<rparr>]\<rparr>)"
    by (simp add: EdgeRepair_def mesh_chain_device_def mesh_chain_def grid2_def launch_def
        grid_step_def thread_step_def devEdgeRepairLimit_def SingleEdgeRepair_thread_def
        er_init_def to_int32_def rd_def all_less_2 upt_0_2)
  from 1 2 3 4 show ?thesis by (intro conjI)
qed

text \<open>
  Claim C3, amended. The host and the device hold the same arrays. For \<^verbatim>\<open>EdgeRepair\<close>, all
  subscripts of the pass are inside the arrays and no edge is handed twice to
  \<^verbatim>\<open>SingleEdgeRepair\<close>; for \<^verbatim>\<open>SetToValue\<close>, the buffer holds \<open>nDims\<close> blocks of \<open>realSize\<close>
  elements, at most \<open>2^32\<close>, and the range ends within the capacity; for
  \<^verbatim>\<open>SelectLargerThan\<close>, the size is within the buffer; and the grid is such that the loop
  variable of a thread does not wrap around. Then the host path returns, the device path
  does not fail under any schedule and returns under some schedule, and every result of
  the device path has the same array contents and the same return value as the result
  of the host path.
\<close>

theorem device_path_agrees:
  fixes a b :: "'a Array" and c e :: "int Array" and C E :: "'b Array"
  shows
  "(cudaFlag s \<noteq> 1 \<and> cudaFlag d = 1 \<and> same_mesh s d \<and> repairable s enc n \<and>
    distinct (processed_edges s enc n) \<and> grid_ok g (er_count s enc n)
      \<longrightarrow> paths_agree same_mesh (EdgeRepair g s enc n)
            (\<lambda>sched. EdgeRepair (g\<lparr>schedule := sched\<rparr>) d enc n)) \<and>
   (cudaFlag_A a = 0 \<and> cudaFlag_A b = 1 \<and> same_contents a b \<and>
    length (buffer a) = nDims a * realSize a \<and> nDims a * realSize a \<le> 2 ^ 32 \<and>
    endIndex \<le> realSize a \<and> 0 < nThreadsTotal g \<and>
    startIndex + nThreadsTotal g \<le> 2 ^ 32 \<and> endIndex + nThreadsTotal g \<le> 2 ^ 32
      \<longrightarrow> paths_agree same_contents (SetToValue g a v startIndex endIndex)
            (\<lambda>sched. SetToValue (g\<lparr>schedule := sched\<rparr>) b v startIndex endIndex)) \<and>
   (cudaFlag_A c \<noteq> 1 \<and> cudaFlag_A e = 1 \<and> same_contents c e \<and> same_contents C E \<and>
    size_A c \<le> length (buffer c) \<and> 0 < nThreadsTotal g \<and>
    int (size_A c) + int (nThreadsTotal g) \<le> 2 ^ 31
      \<longrightarrow> paths_agree same_selection (SelectLargerThan g c w C)
            (\<lambda>sched. SelectLargerThan (g\<lparr>schedule := sched\<rparr>) e w E))"
proof (intro conjI impI)
  assume "cudaFlag s \<noteq> 1 \<and> cudaFlag d = 1 \<and> same_mesh s d \<and> repairable s enc n \<and>
    distinct (processed_edges s enc n) \<and> grid_ok g (er_count s enc n)"
  then show "paths_agree same_mesh (EdgeRepair g s enc n)
      (\<lambda>sched. EdgeRepair (g\<lparr>schedule := sched\<rparr>) d enc n)"
    by (intro EdgeRepair_paths_agree) simp_all
next
  assume "cudaFlag_A a = 0 \<and> cudaFlag_A b = 1 \<and> same_contents a b \<and>
    length (buffer a) = nDims a * realSize a \<and> nDims a * realSize a \<le> 2 ^ 32 \<and>
    endIndex \<le> realSize a \<and> 0 < nThreadsTotal g \<and>
    startIndex + nThreadsTotal g \<le> 2 ^ 32 \<and> endIndex + nThreadsTotal g \<le> 2 ^ 32"
  then have "cudaFlag_A a = 0" "cudaFlag_A b = 1" "same_contents a b"
    "length (buffer a) = nDims a * realSize a" "nDims a * realSize a \<le> 2 ^ 32"
    "endIndex \<le> realSize a" "0 < nThreadsTotal g"
    "startIndex + nThreadsTotal g \<le> 2 ^ 32" "endIndex + nThreadsTotal g \<le> 2 ^ 32"
    by blast+
  then show "paths_agree same_contents (SetToValue g a v startIndex endIndex)
      (\<lambda>sched. SetToValue (g\<lparr>schedule := sched\<rparr>) b v startIndex endIndex)"
    by (rule SetToValue_paths_agree)
next
  assume "cudaFlag_A c \<noteq> 1 \<and> cudaFlag_A e = 1 \<and> same_contents c e \<and> same_contents C E \<and>
    size_A c \<le> length (buffer c) \<and> 0 < nThreadsTotal g \<and>
    int (size_A c) + int (nThreadsTotal g) \<le> 2 ^ 31"
  then have "cudaFlag_A c \<noteq> 1" "cudaFlag_A e = 1" "same_contents c e" "same_contents C E"
    "size_A c \<le> length (buffer c)" "0 < nThreadsTotal g"
    "int (size_A c) + int (nThreadsTotal g) \<le> 2 ^ 31"
    by blast+
  then show "paths_agree same_selection (SelectLargerThan g c w C)
      (\<lambda>sched. SelectLargerThan (g\<lparr>schedule := sched\<rparr>) e w E)"
    by (rule SelectLargerThan_paths_agree)
qed

definition select_a_host :: "int Array" where
  "select_a_host = \<lparr>nDims = 1, size_A = 3, realSize = 4, cudaFlag_A = 0,
     hostVec = [5, 1, 7, 0], deviceVec = []\<rparr>"

lemma EdgeRepair_mesh_flip_host:
  "EdgeRepair grid2 mesh_flip None 0
     = Final (mesh_flip\<lparr>edgeTriangles := [\<lparr>i2x = 1, i2y = - 1\<rparr>, \<lparr>i2x = 0, i2y = 1\<rparr>]\<rparr>)"
  by (simp add: EdgeRepair_def mesh_flip_def for_loop.simps SingleEdgeRepair_eq rd_def
      repair_entry_def repair_slot_def of_option_def)

lemma EdgeRepair_mesh_flip_device:
  "EdgeRepair grid2 mesh_flip_device None 0
     = Final (mesh_flip_device\<lparr>edgeTriangles := [\<lparr>i2x = 1, i2y = - 1\<rparr>, \<lparr>i2x = 0, i2y = 1\<rparr>]\<rparr>)"
  by (simp add: EdgeRepair_def mesh_flip_device_def mesh_flip_def grid2_def launch_def
      grid_step_def thread_step_def devEdgeRepair_def SingleEdgeRepair_thread_def
      er_init_def to_int32_def rd_def all_less_2 upt_0_2)

lemma SetToValue_array6_host:
  "SetToValue grid2 array6_host 9 1 3 = Final (array6_host\<lparr>hostVec := [1, 9, 9, 4, 9, 9]\<rparr>)"
  by (simp add: SetToValue_def array6_host_def for_loop.simps of_option_def wr_def)

lemma SelectLargerThan_select_a_host:
  "SelectLargerThan grid2 select_a_host 2 select_A
     = Final (2, select_a_host\<lparr>size_A := 2, hostVec := [5, 7, 7, 0]\<rparr>,
         select_A\<lparr>size_A := 2, deviceVec := [10, 30, 30, 40, 60, 60]\<rparr>)"
  by (simp add: SelectLargerThan_def select_a_host_def select_A_def for_loop.simps of_option_def
      rd_def wr_def upt_0_2 upt_0_3 ExclusiveScan_def Compact_def scatter_dim_def buffer_def
      set_buffer_def numeral_3_eq_3)

lemma grid2_schedule: "grid2\<lparr>schedule := schedule grid2\<rparr> = grid2"
  by simp

lemma paths_agreeD:
  "paths_agree same host device \<Longrightarrow> host = Final h \<Longrightarrow> device sched = Final d \<Longrightarrow> same h d"
  unfolding paths_agree_def by auto

theorem device_path_agrees_witness:
  "cudaFlag mesh_flip \<noteq> 1 \<and> cudaFlag mesh_flip_device = 1 \<and> same_mesh mesh_flip mesh_flip_device \<and>
   repairable mesh_flip None 0 \<and> distinct (processed_edges mesh_flip None 0) \<and>
   grid_ok grid2 (er_count mesh_flip None 0) \<and>
   cudaFlag_A array6_host = 0 \<and> cudaFlag_A array6 = 1 \<and> same_contents array6_host array6 \<and>
   length (buffer array6_host) = nDims array6_host * realSize array6_host \<and>
   nDims array6_host * realSize array6_host \<le> 2 ^ 32 \<and> 3 \<le> realSize array6_host \<and>
   0 < nThreadsTotal grid2 \<and> 1 + nThreadsTotal grid2 \<le> 2 ^ 32 \<and>
   3 + nThreadsTotal grid2 \<le> 2 ^ 32 \<and>
   cudaFlag_A select_a_host \<noteq> 1 \<and> cudaFlag_A select_a = 1 \<and>
   same_contents select_a_host select_a \<and> same_contents select_A select_A \<and>
   size_A select_a_host \<le> length (buffer select_a_host) \<and>
   int (size_A select_a_host) + int (nThreadsTotal grid2) \<le> 2 ^ 31 \<and>
   same_mesh (mesh_flip\<lparr>edgeTriangles := [\<lparr>i2x = 1, i2y = - 1\<rparr>, \<lparr>i2x = 0, i2y = 1\<rparr>]\<rparr>)
     (mesh_flip_device\<lparr>edgeTriangles := [\<lparr>i2x = 1, i2y = - 1\<rparr>, \<lparr>i2x = 0, i2y = 1\<rparr>]\<rparr>) \<and>
   same_contents (array6_host\<lparr>hostVec := [1, 9, 9, 4, 9, 9]\<rparr>)
     (array6\<lparr>deviceVec := [1, 9, 9, 4, 9, 9]\<rparr>) \<and>
   same_selection
     (2, select_a_host\<lparr>size_A := 2, hostVec := [5, 7, 7, 0]\<rparr>,
      select_A\<lparr>size_A := 2, deviceVec := [10, 30, 30, 40, 60, 60]\<rparr>)
     (2, select_a\<lparr>size_A := 2, deviceVec := [5, 7, 7, 0]\<rparr>,
      select_A\<lparr>size_A := 2, deviceVec := [10, 30, 30, 40, 60, 60]\<rparr>)"
proof -
  have m: "cudaFlag mesh_flip \<noteq> 1" "cudaFlag mesh_flip_device = 1"
    "same_mesh mesh_flip mesh_flip_device"
    by (simp_all add: mesh_flip_device_def mesh_flip_def same_mesh_def)
  have mg: "grid_ok grid2 (er_count mesh_flip None 0)"
    by (simp add: grid_ok_def grid2_def er_count_def mesh_flip_def)
  have s: "cudaFlag_A array6_host = 0" "cudaFlag_A array6 = 1" "same_contents array6_host array6"
    "length (buffer array6_host) = nDims array6_host * realSize array6_host"
    "nDims array6_host * realSize array6_host \<le> 2 ^ 32" "3 \<le> realSize array6_host"
    by (simp_all add: array6_host_def array6_def same_contents_def buffer_def)
  have g: "0 < nThreadsTotal grid2" "1 + nThreadsTotal grid2 \<le> 2 ^ 32"
    "3 + nThreadsTotal grid2 \<le> 2 ^ 32"
    by (simp_all add: grid2_def)
  have l: "cudaFlag_A select_a_host \<noteq> 1" "cudaFlag_A select_a = 1"
    "same_contents select_a_host select_a" "same_contents select_A select_A"
    "size_A select_a_host \<le> length (buffer select_a_host)"
    "int (size_A select_a_host) + int (nThreadsTotal grid2) \<le> 2 ^ 31"
    by (simp_all add: select_a_host_def select_a_def same_contents_def buffer_def grid2_def)
  note inst = device_path_agrees [where s = mesh_flip and d = mesh_flip_device and enc = None
      and n = 0 and g = grid2 and a = array6_host and b = array6 and endIndex = 3
      and startIndex = 1 and v = 9 and c = select_a_host and e = select_a and C = select_A
      and E = select_A and w = 2]
  from inst m repairable_mesh_flip distinct_all_edges mg
  have "paths_agree same_mesh (EdgeRepair grid2 mesh_flip None 0)
      (\<lambda>sched. EdgeRepair (grid2\<lparr>schedule := sched\<rparr>) mesh_flip_device None 0)" by blast
  from paths_agreeD [OF this EdgeRepair_mesh_flip_host, of "schedule grid2"]
    EdgeRepair_mesh_flip_device
  have 1: "same_mesh (mesh_flip\<lparr>edgeTriangles := [\<lparr>i2x = 1, i2y = - 1\<rparr>, \<lparr>i2x = 0, i2y = 1\<rparr>]\<rparr>)
     (mesh_flip_device\<lparr>edgeTriangles := [\<lparr>i2x = 1, i2y = - 1\<rparr>, \<lparr>i2x = 0, i2y = 1\<rparr>]\<rparr>)"
    by (simp add: grid2_schedule)
  from inst s g
  have "paths_agree same_contents (SetToValue grid2 array6_host 9 1 3)
      (\<lambda>sched. SetToValue (grid2\<lparr>schedule := sched\<rparr>) array6 9 1 3)" by blast
  from paths_agreeD [OF this SetToValue_array6_host, of "schedule grid2"] SetToValue_array6
  have 2: "same_contents (array6_host\<lparr>hostVec := [1, 9, 9, 4, 9, 9]\<rparr>)
     (array6\<lparr>deviceVec := [1, 9, 9, 4, 9, 9]\<rparr>)"
    by (simp add: grid2_schedule)
  from inst l g(1)
  have "paths_agree same_selection (SelectLargerThan grid2 select_a_host 2 select_A)
      (\<lambda>sched. SelectLargerThan (grid2\<lparr>schedule := sched\<rparr>) select_a 2 select_A)" by blast
  from paths_agreeD [OF this SelectLargerThan_select_a_host, of "schedule grid2"]
    SelectLargerThan_select_a
  have 3: "same_selection
     (2, select_a_host\<lparr>size_A := 2, hostVec := [5, 7, 7, 0]\<rparr>,
      select_A\<lparr>size_A := 2, deviceVec := [10, 30, 30, 40, 60, 60]\<rparr>)
     (2, select_a\<lparr>size_A := 2, deviceVec := [5, 7, 7, 0]\<rparr>,
      select_A\<lparr>size_A := 2, deviceVec := [10, 30, 30, 40, 60, 60]\<rparr>)"
    by (simp add: grid2_schedule)
  from m repairable_mesh_flip distinct_all_edges mg s g l 1 2 3 show ?thesis by (intro conjI)
qed

end
